theory Spec2Isabelle
  imports Complex_Main
begin

section \<open>Webhook verification and retry (app/utils/webhookVerification.server.ts)\<close>

subsection \<open>verifyWebhookSignature\<close>

text \<open>
  \<^verbatim>\<open>crypto.createHmac('sha256', secret).update(rawBody, 'utf8').digest('base64')\<close> is
  Node's crypto module, not code of the repository: it is the parameter
  \<open>hmacBase64 secret rawBody\<close>.  \<open>signature: string | null\<close> is a \<open>string option\<close>.
  The guard \<^verbatim>\<open>if (!signature) return false\<close> is taken by \<^verbatim>\<open>null\<close> and by the empty
  string, the two falsy values of the type.
\<close>

definition verifyWebhookSignature ::
  "(string \<Rightarrow> string \<Rightarrow> string) \<Rightarrow> string \<Rightarrow> string option \<Rightarrow> string \<Rightarrow> bool" where
  "verifyWebhookSignature hmacBase64 rawBody signature secret =
     (case signature of
        None \<Rightarrow> False
      | Some sig \<Rightarrow>
          if sig = [] then False
          else (let hash = hmacBase64 secret rawBody in hash = sig))"

subsection \<open>The logger (utils/logger.server)\<close>

text \<open>
  \<^verbatim>\<open>logger.error(message, metadata)\<close> is \<^verbatim>\<open>logMessage(LogLevel.ERROR, message, metadata)\<close>.
  \<open>debugMode\<close> is the constant \<^verbatim>\<open>DEBUG_MODE\<close>.  \<^verbatim>\<open>formatLog\<close> makes the line from the
  level, the message and the metadata serialised by \<^verbatim>\<open>JSON.stringify\<close>: in the text
  format the value itself, unless it is falsy; in the json format an object that it is
  spread into.  The timestamp of the line is left out.  \<^verbatim>\<open>JSON.stringify\<close> is the
  platform's and is the parameter \<open>serialise\<close>: the text that goes into the line, or
  \<open>None\<close> when it throws, as it does (a \<^verbatim>\<open>TypeError\<close>) for a value with a circular
  reference or a BigInt.  \<^verbatim>\<open>logMessage\<close> gives the lines printed to the console, or
  \<open>None\<close> when that exception passes through it.
\<close>

datatype LogLevel = DEBUG | INFO | WARN | ERROR

datatype 'm log_line = LogLine LogLevel 'm string

definition formatLog ::
  "('e \<Rightarrow> string option) \<Rightarrow> LogLevel \<Rightarrow> 'm \<Rightarrow> 'e \<Rightarrow> 'm log_line option" where
  "formatLog serialise level message metadata =
     (case serialise metadata of
        None \<Rightarrow> None
      | Some metaStr \<Rightarrow> Some (LogLine level message metaStr))"

definition shouldLog :: "bool \<Rightarrow> LogLevel \<Rightarrow> bool" where
  "shouldLog debugMode level =
     (case level of DEBUG \<Rightarrow> debugMode | INFO \<Rightarrow> debugMode | WARN \<Rightarrow> True | ERROR \<Rightarrow> True)"

definition logMessage ::
  "bool \<Rightarrow> ('e \<Rightarrow> string option) \<Rightarrow> LogLevel \<Rightarrow> 'm \<Rightarrow> 'e \<Rightarrow> 'm log_line list option" where
  "logMessage debugMode serialise level message metadata =
     (if \<not> shouldLog debugMode level then Some []
      else (case formatLog serialise level message metadata of
              None \<Rightarrow> None
            | Some formatted \<Rightarrow> Some [formatted]))"

definition logger_error ::
  "bool \<Rightarrow> ('e \<Rightarrow> string option) \<Rightarrow> 'm \<Rightarrow> 'e \<Rightarrow> 'm log_line list option" where
  "logger_error debugMode serialise message metadata =
     logMessage debugMode serialise ERROR message metadata"

subsection \<open>handleWebhookWithRetry\<close>

text \<open>
  The handler \<^verbatim>\<open>() => Promise<void>\<close> is a closure with effects of its own: a function
  from its state to an outcome and the next state, where the outcome \<open>None\<close> is a
  resolved promise and \<open>Some e\<close> a rejection with the value \<open>e\<close>.  What the loop does to
  the outside world is recorded as a list of events, in order: an invocation of the
  handler with its outcome, a line printed by the logger, a \<^verbatim>\<open>setTimeout\<close> wait in
  milliseconds.  The message \<^verbatim>\<open>`Webhook processing attempt ${attempt} failed:`\<close> is
  \<open>AttemptFailed attempt\<close>.

  \<open>maxRetries\<close> is a JavaScript number and need not be an integer: it is a real, and
  the loop counter, which starts at 1 and is incremented, an integer.  Of the numbers
  that are no reals, \<^verbatim>\<open>NaN\<close> and \<^verbatim>\<open>-Infinity\<close> make \<^verbatim>\<open>attempt <= maxRetries\<close> false
  from the start, as every real below 1 does, and with \<^verbatim>\<open>Infinity\<close> both tests of the
  loop are always true, so that a run that ends is the run for any real above its
  number of attempts.

  \<^verbatim>\<open>lastError\<close> starts out \<^verbatim>\<open>undefined\<close>, which is \<open>None\<close>.  The function resolves
  (\<open>Inr ()\<close>), or rejects (\<open>Inl\<close>): with \<^verbatim>\<open>lastError\<close> after the loop, or with the
  \<^verbatim>\<open>TypeError\<close> that \<^verbatim>\<open>logger.error\<close> lets through, which is raised inside the \<^verbatim>\<open>catch\<close>
  block and so leaves the loop and the function.
\<close>

datatype webhook_message = AttemptFailed int

datatype 'e event =
    Invoked "'e option"
  | Console "webhook_message log_line"
  | Sleep int

datatype 'e rejection =
    LastError "'e option"
  | TypeError

type_synonym ('e, 's) handler = "'s \<Rightarrow> 'e option \<times> 's"

function retry_loop ::
  "bool \<Rightarrow> ('e \<Rightarrow> string option) \<Rightarrow> ('e, 's) handler \<Rightarrow> real \<Rightarrow> int \<Rightarrow> 'e option \<Rightarrow> 's
     \<Rightarrow> ('e rejection + unit) \<times> 's \<times> 'e event list" where
  "retry_loop debugMode serialise handler maxRetries attempt lastError s =
     (if of_int attempt \<le> maxRetries then
        (case handler s of
           (None, s') \<Rightarrow> (Inr (), s', [Invoked None])
         | (Some error, s') \<Rightarrow>
             (case logger_error debugMode serialise (AttemptFailed attempt) error of
                None \<Rightarrow> (Inl TypeError, s', [Invoked (Some error)])
              | Some printed \<Rightarrow>
                  (case retry_loop debugMode serialise handler maxRetries (attempt + 1) (Some error) s' of
                     (r, s'', evs) \<Rightarrow>
                       (r, s'',
                        [Invoked (Some error)] @ map Console printed
                        @ (if of_int attempt < maxRetries then [Sleep (2 ^ nat attempt * 1000)] else [])
                        @ evs))))
      else (Inl (LastError lastError), s, []))"
  by pat_completeness auto
termination
proof (relation "measure (\<lambda>(debugMode, serialise, handler, maxRetries, attempt, lastError, s).
                            nat (\<lfloor>maxRetries\<rfloor> + 1 - attempt))")
  show "wf (measure (\<lambda>(debugMode, serialise, handler, maxRetries, attempt, lastError, s).
                       nat (\<lfloor>maxRetries :: real\<rfloor> + 1 - attempt)))"
    for dummy :: "bool \<times> ('e \<Rightarrow> string option) \<times> ('e, 's) handler \<times> real \<times> int \<times> 'e option \<times> 's"
    by simp
next
  fix debugMode :: bool and serialise :: "'e \<Rightarrow> string option" and handler :: "('e, 's) handler"
    and maxRetries :: real and attempt :: int and lastError :: "'e option" and s :: 's
    and x :: "'e option \<times> 's" and x1 :: "'e option" and s' :: 's and error :: 'e
    and printed :: "webhook_message log_line list"
  assume "of_int attempt \<le> maxRetries"
  then have "attempt \<le> \<lfloor>maxRetries\<rfloor>" by (simp add: le_floor_iff)
  then show "((debugMode, serialise, handler, maxRetries, attempt + 1, Some error, s'),
              (debugMode, serialise, handler, maxRetries, attempt, lastError, s))
             \<in> measure (\<lambda>(debugMode, serialise, handler, maxRetries, attempt, lastError, s).
                           nat (\<lfloor>maxRetries\<rfloor> + 1 - attempt))"
    by simp
qed

declare retry_loop.simps [simp del]

definition handleWebhookWithRetry ::
  "bool \<Rightarrow> ('e \<Rightarrow> string option) \<Rightarrow> ('e, 's) handler \<Rightarrow> real \<Rightarrow> 's
     \<Rightarrow> ('e rejection + unit) \<times> 's \<times> 'e event list" where
  "handleWebhookWithRetry debugMode serialise handler maxRetries s =
     retry_loop debugMode serialise handler maxRetries 1 None s"

text \<open>Of the events of a run: the outcomes of the invocations, the waits, and the
  attempt numbers of the lines that the logger printed.\<close>

fun outcomes :: "'e event list \<Rightarrow> 'e option list" where
  "outcomes [] = []"
| "outcomes (Invoked r # evs) = r # outcomes evs"
| "outcomes (_ # evs) = outcomes evs"

fun delays :: "'e event list \<Rightarrow> int list" where
  "delays [] = []"
| "delays (Sleep d # evs) = d # delays evs"
| "delays (_ # evs) = delays evs"

fun logged_attempts :: "'e event list \<Rightarrow> int list" where
  "logged_attempts [] = []"
| "logged_attempts (Console (LogLine level (AttemptFailed k) metaStr) # evs) = k # logged_attempts evs"
| "logged_attempts (_ # evs) = logged_attempts evs"

text \<open>The schedule of a run: its attempts and its waits, in the order in which they
  happen.\<close>

datatype schedule_item = Attempt | Wait int

fun schedule :: "'e event list \<Rightarrow> schedule_item list" where
  "schedule [] = []"
| "schedule (Invoked r # evs) = Attempt # schedule evs"
| "schedule (Sleep d # evs) = Wait d # schedule evs"
| "schedule (Console l # evs) = schedule evs"

definition result_of :: "('e rejection + unit) \<times> 's \<times> 'e event list \<Rightarrow> 'e rejection + unit" where
  "result_of r = fst r"

definition events_of :: "('e rejection + unit) \<times> 's \<times> 'e event list \<Rightarrow> 'e event list" where
  "events_of r = snd (snd r)"

text \<open>
  Two values a handler may reject with: an \<^verbatim>\<open>Error\<close> object, which \<^verbatim>\<open>JSON.stringify\<close>
  renders as \<^verbatim>\<open>{}\<close>, and an object that holds a reference to itself
  (\<^verbatim>\<open>const e = {}; e.self = e\<close>), for which it throws.  A handler that rejects with the
  first every time, one that rejects with it twice and then resolves (its state
  counts the invocations so far), and one that rejects with the second every time.
\<close>

datatype thrown_value = Boom | Cyclic

fun json_stringify :: "thrown_value \<Rightarrow> string option" where
  "json_stringify Boom = Some ''{}''"
| "json_stringify Cyclic = None"

definition failing_handler :: "(thrown_value, unit) handler" where
  "failing_handler s = (Some Boom, s)"

definition flaky_handler :: "(thrown_value, nat) handler" where
  "flaky_handler n = (if n < 2 then Some Boom else None, Suc n)"

definition cyclic_handler :: "(thrown_value, unit) handler" where
  "cyclic_handler s = (Some Cyclic, s)"

section \<open>Rate limiting (app/utils/rateLimiter.server.ts)\<close>

subsection \<open>The cache\<close>

text \<open>
  \<^verbatim>\<open>new LRUCache<string, V>({ max, ttl })\<close> is the npm package lru-cache, not code of the
  repository.  Its documented behaviour under the two options the source sets is
  modelled here: the cache is the list of its entries, most recently used first; an
  entry is its key, its value and the time at which its time-to-live started (the last
  \<^verbatim>\<open>set\<close> of the key).
  \<^item> \<^verbatim>\<open>get\<close> of a key whose entry is older than \<open>ttl\<close> deletes the entry and returns
    \<^verbatim>\<open>undefined\<close>; otherwise it returns the value and makes the entry the most recently
    used one;
  \<^item> \<^verbatim>\<open>has\<close> says whether the key has an entry that is not older than \<open>ttl\<close>;
  \<^item> \<^verbatim>\<open>set\<close> stores the value, restarts the entry's time-to-live, makes the entry the
    most recently used one, and, when this makes the cache hold more than \<open>max\<close>
    entries, evicts the least recently used one.
  The cache's clock and \<^verbatim>\<open>Date.now()\<close> are one clock here, in milliseconds.
  The values are JavaScript objects, held by reference: \<open>lru_mutate\<close> is an assignment
  to the fields of the object that \<^verbatim>\<open>get\<close> returned, which changes the cached value
  and nothing else of the entry.
\<close>

type_synonym 'v lru = "(string \<times> 'v \<times> int) list"

definition lru_stale :: "int \<Rightarrow> int \<Rightarrow> int \<Rightarrow> bool" where
  "lru_stale ttl now start = (now - start > ttl)"

definition lru_remove :: "string \<Rightarrow> 'v lru \<Rightarrow> 'v lru" where
  "lru_remove k c = filter (\<lambda>e. fst e \<noteq> k) c"

definition lru_get :: "int \<Rightarrow> int \<Rightarrow> string \<Rightarrow> 'v lru \<Rightarrow> 'v option \<times> 'v lru" where
  "lru_get ttl now k c =
     (case map_of c k of
        None \<Rightarrow> (None, c)
      | Some (v, start) \<Rightarrow>
          if lru_stale ttl now start then (None, lru_remove k c)
          else (Some v, (k, v, start) # lru_remove k c))"

definition lru_has :: "int \<Rightarrow> int \<Rightarrow> string \<Rightarrow> 'v lru \<Rightarrow> bool" where
  "lru_has ttl now k c =
     (case map_of c k of
        None \<Rightarrow> False
      | Some (v, start) \<Rightarrow> \<not> lru_stale ttl now start)"

definition lru_set :: "nat \<Rightarrow> int \<Rightarrow> string \<Rightarrow> 'v \<Rightarrow> 'v lru \<Rightarrow> 'v lru" where
  "lru_set max_entries now k v c = take max_entries ((k, v, now) # lru_remove k c)"

definition lru_mutate :: "string \<Rightarrow> 'v \<Rightarrow> 'v lru \<Rightarrow> 'v lru" where
  "lru_mutate k v c = map (\<lambda>(k', v', start). if k' = k then (k', v, start) else (k', v', start)) c"

subsection \<open>Buckets, responses, results\<close>

text \<open>
  The counters and the reset timestamps (milliseconds since the epoch, as
  \<^verbatim>\<open>Date.now()\<close> gives them) are integers; the two limits are any real numbers
  (\<^verbatim>\<open>NaN\<close> and the infinities are outside the model).  JavaScript computes with IEEE 754
  doubles and rounds: \<^verbatim>\<open>burstLimit * 0.7\<close> is the double nearest to the product of the
  doubles \<^verbatim>\<open>burstLimit\<close> and \<^verbatim>\<open>0.7\<close>, not the product of the reals.  The multiplication
  and the subtraction of numbers are therefore parameters: \<open>dmul ops x y\<close> is \<^verbatim>\<open>x * y\<close> and
  \<open>dsub ops x y\<close> is \<^verbatim>\<open>x - y\<close>.  Comparisons are exact in JavaScript too, and so is the
  arithmetic on the counters and the timestamps, integers far below \<open>2 ^ 53\<close>.
\<close>

record js_arith =
  dmul :: "real \<Rightarrow> real \<Rightarrow> real"
  dsub :: "real \<Rightarrow> real \<Rightarrow> real"

record BurstBucket =
  burstCount :: int
  burstReset :: int
  sustainedCount :: int
  sustainedReset :: int

text \<open>
  A thrown \<^verbatim>\<open>Response\<close>.  A header's value is kept as the data the source makes the
  string from: \<open>Seconds n\<close> is \<^verbatim>\<open>n.toString()\<close>, \<open>PerWindow l w\<close> is the template
  \<^verbatim>\<open>`${l}/w`\<close>, \<open>IsoDate t\<close> is \<^verbatim>\<open>new Date(t).toISOString()\<close>.
\<close>

datatype header_value =
    Seconds int
  | PerWindow real string
  | IsoDate int
  | Text string

record response =
  body :: string
  status :: nat
  headers :: "(string \<times> header_value) list"

text \<open>The resolved value \<^verbatim>\<open>{ remaining, reset, burst }\<close>; \<open>reset\<close> is the timestamp that
  \<^verbatim>\<open>toISOString\<close> renders.\<close>

record limit_info =
  remaining :: real
  reset :: int
  burst :: bool

subsection \<open>rateLimit, the first definition (lines 15-59)\<close>

definition rateLimit_minimal ::
  "js_arith \<Rightarrow> string \<Rightarrow> real \<Rightarrow> real \<Rightarrow> int \<Rightarrow> BurstBucket lru
     \<Rightarrow> (response + limit_info) \<times> BurstBucket lru" where
  "rateLimit_minimal ops shop sustainedLimit burstLimit now cache =
     (let key = ''rate-limit:'' @ shop;
          burstWindow = 10 * 1000;
          sustainedWindow = 60 * 1000;
          (cached, cache) = lru_get (60 * 1000) now key cache;
          bucket = (case cached of
                      Some b \<Rightarrow> b
                    | None \<Rightarrow> \<lparr>burstCount = 0, burstReset = now + burstWindow,
                               sustainedCount = 0, sustainedReset = now + sustainedWindow\<rparr>);
          bucket = (if now \<ge> burstReset bucket
                    then bucket\<lparr>burstCount := 0, burstReset := now + burstWindow\<rparr>
                    else bucket);
          bucket = (if now \<ge> sustainedReset bucket
                    then bucket\<lparr>sustainedCount := 0, sustainedReset := now + sustainedWindow\<rparr>
                    else bucket);
          cache = lru_mutate key bucket cache
      in if of_int (burstCount bucket) \<ge> burstLimit then
           (Inl \<lparr>body = ''Too Many Requests'', status = 429, headers = []\<rparr>, cache)
         else if of_int (sustainedCount bucket) \<ge> sustainedLimit then
           (Inl \<lparr>body = ''Too Many Requests'', status = 429, headers = []\<rparr>, cache)
         else
           (let bucket = bucket\<lparr>burstCount := burstCount bucket + 1\<rparr>;
                bucket = bucket\<lparr>sustainedCount := sustainedCount bucket + 1\<rparr>;
                cache = lru_set 1000 now key bucket cache
            in (Inr \<lparr>remaining = dsub ops sustainedLimit (of_int (sustainedCount bucket)),
                     reset = sustainedReset bucket,
                     burst = (of_int (burstCount bucket) > dmul ops burstLimit 0.7)\<rparr>,
                cache)))"

subsection \<open>rateLimit, the second definition (lines 95-168)\<close>

text \<open>
  The module's state is its two caches and what it has logged.
  \<^verbatim>\<open>logRateLimitExceeded\<close> (services/securityMonitor.server, not among the sources) and
  \<^verbatim>\<open>console.warn\<close> append to the log.
\<close>

datatype log_entry =
    RateLimitExceeded string string string
  | HighUsage string int real

record limiter_state =
  rateLimitCache :: "BurstBucket lru"
  highUsageLog :: "int lru"
  logged :: "log_entry list"

definition rateLimit ::
  "js_arith \<Rightarrow> string \<Rightarrow> real \<Rightarrow> real \<Rightarrow> int \<Rightarrow> limiter_state
     \<Rightarrow> (response + limit_info) \<times> limiter_state" where
  "rateLimit ops shop sustainedLimit burstLimit now st =
     (let key = ''rate-limit:'' @ shop;
          burstWindow = 10 * 1000;
          sustainedWindow = 60 * 1000;
          (cached, cache) = lru_get (60 * 1000) now key (rateLimitCache st);
          bucket = (case cached of
                      Some b \<Rightarrow> b
                    | None \<Rightarrow> \<lparr>burstCount = 0, burstReset = now + burstWindow,
                               sustainedCount = 0, sustainedReset = now + sustainedWindow\<rparr>);
          bucket = (if now \<ge> burstReset bucket
                    then bucket\<lparr>burstCount := 0, burstReset := now + burstWindow\<rparr>
                    else bucket);
          bucket = (if now \<ge> sustainedReset bucket
                    then bucket\<lparr>sustainedCount := 0, sustainedReset := now + sustainedWindow\<rparr>
                    else bucket);
          st = st\<lparr>rateLimitCache := lru_mutate key bucket cache\<rparr>
      in if of_int (burstCount bucket) \<ge> burstLimit then
           (Inl \<lparr>body = ''Too Many Requests (burst limit)'', status = 429,
                 headers =
                   [(''Retry-After'', Seconds (- ((- (burstReset bucket - now)) div 1000))),
                    (''X-RateLimit-Limit'', PerWindow burstLimit ''10s''),
                    (''X-RateLimit-Remaining'', Text ''0''),
                    (''X-RateLimit-Reset'', IsoDate (burstReset bucket))]\<rparr>,
            st\<lparr>logged := logged st @ [RateLimitExceeded shop ''burst'' ''burst-limit'']\<rparr>)
         else if of_int (sustainedCount bucket) \<ge> sustainedLimit then
           (Inl \<lparr>body = ''Too Many Requests'', status = 429,
                 headers =
                   [(''Retry-After'', Seconds (- ((- (sustainedReset bucket - now)) div 1000))),
                    (''X-RateLimit-Limit'', PerWindow sustainedLimit ''60s''),
                    (''X-RateLimit-Remaining'', Text ''0''),
                    (''X-RateLimit-Reset'', IsoDate (sustainedReset bucket))]\<rparr>,
            st\<lparr>logged := logged st @ [RateLimitExceeded shop ''sustained'' ''sustained-limit'']\<rparr>)
         else
           (let bucket = bucket\<lparr>burstCount := burstCount bucket + 1\<rparr>;
                bucket = bucket\<lparr>sustainedCount := sustainedCount bucket + 1\<rparr>;
                st = st\<lparr>rateLimitCache := lru_set 1000 now key bucket (rateLimitCache st)\<rparr>;
                st = (if of_int (sustainedCount bucket) > dmul ops sustainedLimit 0.4
                         \<and> \<not> lru_has (5 * 60 * 1000) now shop (highUsageLog st)
                      then st\<lparr>logged := logged st @ [HighUsage shop (sustainedCount bucket) sustainedLimit],
                              highUsageLog := lru_set 100 now shop (sustainedCount bucket) (highUsageLog st)\<rparr>
                      else st)
            in (Inr \<lparr>remaining = dsub ops sustainedLimit (of_int (sustainedCount bucket)),
                     reset = sustainedReset bucket,
                     burst = (of_int (burstCount bucket) > dmul ops burstLimit 0.7)\<rparr>,
                st)))"

text \<open>The notions the properties below are stated with: the bucket a call works on
  (the cached one if the shop has an entry that has not expired, else a new one), and
  the window resets.\<close>

definition fresh_bucket :: "int \<Rightarrow> BurstBucket" where
  "fresh_bucket now =
     \<lparr>burstCount = 0, burstReset = now + 10000, sustainedCount = 0, sustainedReset = now + 60000\<rparr>"

definition live_entry :: "int \<Rightarrow> 'v lru \<Rightarrow> string \<Rightarrow> 'v option" where
  "live_entry now c k =
     (case map_of c k of
        None \<Rightarrow> None
      | Some (v, start) \<Rightarrow> if now - start > 60000 then None else Some v)"

definition loaded_bucket :: "int \<Rightarrow> BurstBucket lru \<Rightarrow> string \<Rightarrow> BurstBucket" where
  "loaded_bucket now c k = (case live_entry now c k of None \<Rightarrow> fresh_bucket now | Some b \<Rightarrow> b)"

definition window_resets :: "int \<Rightarrow> BurstBucket \<Rightarrow> BurstBucket" where
  "window_resets now b =
     \<lparr>burstCount = (if burstReset b \<le> now then 0 else burstCount b),
      burstReset = (if burstReset b \<le> now then now + 10000 else burstReset b),
      sustainedCount = (if sustainedReset b \<le> now then 0 else sustainedCount b),
      sustainedReset = (if sustainedReset b \<le> now then now + 60000 else sustainedReset b)\<rparr>"

definition stored_bucket :: "BurstBucket lru \<Rightarrow> string \<Rightarrow> BurstBucket option" where
  "stored_bucket c k = map_option fst (map_of c k)"

subsection \<open>Runs of calls, and what the counters count\<close>

text \<open>The state of the module when it is loaded.\<close>

definition initial_state :: limiter_state where
  "initial_state = \<lparr>rateLimitCache = [], highUsageLog = [], logged = []\<rparr>"

text \<open>
  A run of calls of \<^verbatim>\<open>rateLimit\<close> for one shop, each call given by its time and its two
  limits \<open>(now, sustainedLimit, burstLimit)\<close>; the run collects the times of the
  admitted calls, in order.
\<close>

fun run_calls ::
  "js_arith \<Rightarrow> string \<Rightarrow> (int \<times> real \<times> real) list \<Rightarrow> limiter_state \<Rightarrow> int list
     \<Rightarrow> limiter_state \<times> int list" where
  "run_calls ops shop [] st admitted = (st, admitted)"
| "run_calls ops shop ((now, sustainedLimit, burstLimit) # calls) st admitted =
     (case rateLimit ops shop sustainedLimit burstLimit now st of
        (Inl _, st') \<Rightarrow> run_calls ops shop calls st' admitted
      | (Inr _, st') \<Rightarrow> run_calls ops shop calls st' (admitted @ [now]))"

text \<open>
  The count of a sliding window, in the words of the specification: the admitted
  requests that are not older than the window length at the time \<open>now\<close>.
\<close>

definition trailing_count :: "int \<Rightarrow> int \<Rightarrow> int list \<Rightarrow> int" where
  "trailing_count window now admitted =
     int (length (filter (\<lambda>t. now - t \<le> window \<and> t \<le> now) admitted))"

text \<open>
  The count of a fixed window: the admitted requests since the start of the window
  that ends at \<open>resetAt\<close>.
\<close>

definition window_count :: "int \<Rightarrow> int \<Rightarrow> int list \<Rightarrow> int" where
  "window_count resetAt window admitted =
     int (length (filter (\<lambda>t. resetAt - window \<le> t) admitted))"

text \<open>
  The fixed-window scheme, stated on its own: what is kept for a shop is the start of
  its burst window, the start of its sustained window and the time of its last
  admitted request, beside the times of all admitted requests.  A call at \<open>now\<close> finds
  the windows live unless nothing is kept or the last admitted request is more than
  60 s old.  Each of its two windows is the live one, unless there is none or \<open>now\<close> is
  a window length or more after its start: then a new window starts at \<open>now\<close>.  The
  counters of the call are the numbers of requests admitted since the starts of its
  two windows; the call is rejected if one of them has reached its limit, and admitted
  otherwise.  A rejected call keeps what it found live, with the windows of the call; an
  admitted call keeps the windows of the call and its own time.
\<close>

record windows =
  burstStart :: int
  sustainedStart :: int
  lastAdmitted :: int

definition live_windows :: "int \<Rightarrow> windows option \<Rightarrow> windows option" where
  "live_windows now kept =
     (case kept of
        None \<Rightarrow> None
      | Some w \<Rightarrow> if now - lastAdmitted w > 60000 then None else Some w)"

definition window_start :: "int \<Rightarrow> int \<Rightarrow> int option \<Rightarrow> int" where
  "window_start window now live =
     (case live of
        None \<Rightarrow> now
      | Some start \<Rightarrow> if start + window \<le> now then now else start)"

definition fixed_window_step ::
  "int \<times> real \<times> real \<Rightarrow> windows option \<times> int list \<Rightarrow> windows option \<times> int list" where
  "fixed_window_step call kept_admitted =
     (case (call, kept_admitted) of
        ((now, sustainedLimit, burstLimit), (kept, admitted)) \<Rightarrow>
          (let live = live_windows now kept;
               bstart = window_start 10000 now (map_option burstStart live);
               sstart = window_start 60000 now (map_option sustainedStart live)
           in if of_int (window_count (bstart + 10000) 10000 admitted) \<ge> burstLimit
                 \<or> of_int (window_count (sstart + 60000) 60000 admitted) \<ge> sustainedLimit
              then (map_option (\<lambda>w. w\<lparr>burstStart := bstart, sustainedStart := sstart\<rparr>) live,
                    admitted)
              else (Some \<lparr>burstStart = bstart, sustainedStart = sstart, lastAdmitted = now\<rparr>,
                    admitted @ [now])))"

definition fixed_window_run ::
  "(int \<times> real \<times> real) list \<Rightarrow> windows option \<times> int list \<Rightarrow> windows option \<times> int list" where
  "fixed_window_run calls kept_admitted = fold fixed_window_step calls kept_admitted"

text \<open>The cache entry that holds the windows \<open>w\<close> after the admitted requests
  \<open>admitted\<close>: the bucket with the two counts and the two ends of the windows, and the
  time at which the entry's time-to-live started.\<close>

definition entry_of :: "int list \<Rightarrow> windows \<Rightarrow> BurstBucket \<times> int" where
  "entry_of admitted w =
     (\<lparr>burstCount = window_count (burstStart w + 10000) 10000 admitted,
       burstReset = burstStart w + 10000,
       sustainedCount = window_count (sustainedStart w + 60000) 60000 admitted,
       sustainedReset = sustainedStart w + 60000\<rparr>,
      lastAdmitted w)"

text \<open>And the windows that a cache entry holds.\<close>

definition windows_of :: "BurstBucket \<times> int \<Rightarrow> windows" where
  "windows_of e =
     \<lparr>burstStart = burstReset (fst e) - 10000,
      sustainedStart = sustainedReset (fst e) - 60000,
      lastAdmitted = snd e\<rparr>"

text \<open>
  The invariant of a run whose last call was at \<open>tlast\<close>: a stored bucket counts the
  admitted requests of its two current windows, its entry was set at the last admitted
  request, and both windows contain \<open>tlast\<close>.
\<close>

definition run_inv :: "string \<Rightarrow> int \<Rightarrow> BurstBucket lru \<Rightarrow> int list \<Rightarrow> bool" where
  "run_inv key tlast c admitted =
     (case map_of c key of
        None \<Rightarrow> list_all (\<lambda>t. t < tlast) admitted
      | Some (b, start) \<Rightarrow>
          burstCount b = window_count (burstReset b) 10000 admitted
          \<and> sustainedCount b = window_count (sustainedReset b) 60000 admitted
          \<and> list_all (\<lambda>t. t \<le> start) admitted
          \<and> start \<le> tlast
          \<and> tlast < burstReset b \<and> burstReset b - 10000 \<le> tlast
          \<and> tlast < sustainedReset b \<and> sustainedReset b - 60000 \<le> tlast)"

subsection \<open>Concrete states\<close>

text \<open>
  A stand-in for the platform's arithmetic: the exact one.  The calls below have the
  limits 100 and 40 and counters up to 41: the differences \<open>100 - n\<close> are exact in
  doubles as well, and the doubles \<^verbatim>\<open>40 * 0.7\<close> and \<^verbatim>\<open>100 * 0.4\<close> differ by less than a billionth from 28 and
  40, so that no comparison of a counter 1, 2, 3 or 41 with them comes out otherwise.
\<close>

definition exact_arith :: js_arith where
  "exact_arith = \<lparr>dmul = (\<lambda>x y. x * y), dsub = (\<lambda>x y. x - y)\<rparr>"

text \<open>
  A shop that has used up its burst allowance: forty requests admitted in the five
  seconds from 1700000000000 on (14 November 2023), the last one at 1700000005000.
\<close>

definition busy_state :: limiter_state where
  "busy_state =
     \<lparr>rateLimitCache =
        [(''rate-limit:shop'',
          \<lparr>burstCount = 40, burstReset = 1700000010000,
           sustainedCount = 40, sustainedReset = 1700000060000\<rparr>,
          1700000005000)],
      highUsageLog = [],
      logged = []\<rparr>"

text \<open>The same shop, and an entry that \<^verbatim>\<open>rateLimitByIP\<close> made for an address.\<close>

definition shared_state :: limiter_state where
  "shared_state =
     \<lparr>rateLimitCache =
        [(''rate-limit:shop'',
          \<lparr>burstCount = 40, burstReset = 1700000010000,
           sustainedCount = 40, sustainedReset = 1700000060000\<rparr>,
          1700000005000),
         (''rate-limit-ip:203.0.113.7'',
          \<lparr>burstCount = 0, burstReset = 1700000004000,
           sustainedCount = 3, sustainedReset = 1700000064000\<rparr>,
          1700000004500)],
      highUsageLog = [],
      logged = []\<rparr>"

text \<open>
  A thousand shops, \<open>shop\<close>, \<open>shopx\<close>, \<open>shopxx\<close>, ..., each with one request, the shop
  number \<open>n\<close> at the millisecond \<open>1700000000000 + n\<close>.  \<open>thousand_calls m\<close> is the
  state after the first \<open>m\<close> of these calls, from the initial state on; \<open>full_state\<close>
  is the state that all thousand leave behind.
\<close>

definition shop_name :: "nat \<Rightarrow> string" where
  "shop_name n = ''shop'' @ replicate n CHR ''x''"

definition first_request :: "nat \<Rightarrow> string \<times> BurstBucket \<times> int" where
  "first_request n =
     (''rate-limit:'' @ shop_name n,
      \<lparr>burstCount = 1, burstReset = 1700000000000 + int n + 10000,
       sustainedCount = 1, sustainedReset = 1700000000000 + int n + 60000\<rparr>,
      1700000000000 + int n)"

definition thousand_calls :: "nat \<Rightarrow> limiter_state" where
  "thousand_calls m =
     fold (\<lambda>n st. snd (rateLimit exact_arith (shop_name n) 100 40 (1700000000000 + int n) st))
       [0 ..< m] initial_state"

definition full_state :: limiter_state where
  "full_state =
     \<lparr>rateLimitCache = map first_request (rev [0 ..< 1000]),
      highUsageLog = [],
      logged = []\<rparr>"

section \<open>Insight generation (app/utils/insights.ts)\<close>

text \<open>
  All numbers of \<^verbatim>\<open>DashboardMetrics\<close> are reals (\<^verbatim>\<open>NaN\<close> and the infinities are outside
  the model); \<^verbatim>\<open>lastMLUpdate: Date | null\<close> is the date's time in milliseconds, if any.
\<close>

record DashboardMetrics =
  cartEnabled :: bool
  recommendationsVisible :: bool
  appInstalledDays :: real
  totalOrders :: real
  totalRevenue :: real
  attributedRevenue :: real
  attributedOrders :: real
  activeBundleCount :: real
  recImpressions :: real
  recClicks :: real
  recCTR :: real
  conversionRate :: real
  aiRecommendationsEnabled :: bool
  freeShippingEnabled :: bool
  freeShippingThreshold :: real
  ordersReachingFreeShipping :: real
  roi :: real
  lastMLUpdate :: "int option"
  mlPerformanceChange :: real

text \<open>
  \<^verbatim>\<open>InsightCardProps\<close> is declared in components/InsightCard, which is not among the
  sources; its fields are the ones the cards of this file are built from.  The field
  \<^verbatim>\<open>id\<close> is \<open>id'\<close> here, \<^verbatim>\<open>type\<close> is \<open>type'\<close>, and the four values of \<^verbatim>\<open>type\<close> are capitalised.  A text is kept as the pieces of its
  template literal: \<open>Str s\<close> is literal text (its bytes as the source file has them),
  \<open>ToFixed x d\<close> is \<^verbatim>\<open>x.toFixed(d)\<close> and \<open>ToString x\<close> is \<^verbatim>\<open>${x}\<close>.
\<close>

datatype piece =
    Str string
  | ToFixed real nat
  | ToString real

datatype insight_type = Critical | Warning | Success | Info

record action =
  label :: string
  url :: string

record InsightCardProps =
  id' :: string
  type' :: insight_type
  priority :: nat
  title :: "piece list"
  message :: "piece list"
  action :: "action option"

record ScoredInsight = InsightCardProps +
  score :: real

text \<open>\<^verbatim>\<open>if (c) { insights.push(x) }\<close>: what the statement appends to the array.\<close>

definition push_if :: "bool \<Rightarrow> 'a \<Rightarrow> 'a list" where
  "push_if c x = (if c then [x] else [])"

text \<open>The array \<^verbatim>\<open>insights\<close> when the fourteen conditionals have run, in the order of
  the pushes.  \<open>now\<close> is \<^verbatim>\<open>Date.now()\<close>.\<close>

definition scored_insights :: "int \<Rightarrow> DashboardMetrics \<Rightarrow> ScoredInsight list" where
  "scored_insights now metrics =
     push_if (\<not> recommendationsVisible metrics \<and> appInstalledDays metrics > 3)
       \<lparr>id' = ''no-visibility'', type' = Critical, priority = 1,
        title = [Str ''No one is seeing your recommendations''],
        message = [Str ''Check your theme settings and make sure the app embed is turned on. Customers can't buy what they can't see.''],
        action = Some \<lparr>label = ''Setup guide'', url = ''/admin/settings''\<rparr>,
        score = 100\<rparr>
     @ push_if (\<not> cartEnabled metrics \<and> totalOrders metrics > 10)
       \<lparr>id' = ''cart-disabled'', type' = Critical, priority = 1,
        title = [Str ''Cart drawer is turned off''],
        message = [Str ''Enable the cart drawer to show upsells and free shipping progress. You're missing opportunities on every order.''],
        action = Some \<lparr>label = ''Enable now'', url = ''/admin/settings''\<rparr>,
        score = 95\<rparr>
     @ push_if (activeBundleCount metrics = 0 \<and> appInstalledDays metrics > 7)
       \<lparr>id' = ''no-bundles'', type' = Critical, priority = 1,
        title = [Str ''Create your first FBT offer''],
        message = [Str ''Start with 2-3 products that customers often buy together. Most merchants see results within 3 days.''],
        action = Some \<lparr>label = ''Create FBT'', url = ''/admin/bundles/new''\<rparr>,
        score = 97\<rparr>
     @ push_if (recImpressions metrics > 50 \<and> recClicks metrics = 0)
       \<lparr>id' = ''no-clicks'', type' = Warning, priority = 2,
        title = [Str ''Customers see FBT but don't click''],
        message = [Str ''Try pairing products that actually go together or offer a bigger discount to make the deal more appealing.''],
        action = Some \<lparr>label = ''View FBT offers'', url = ''/admin/bundles''\<rparr>,
        score = 85\<rparr>
     @ push_if (recCTR metrics < 2 \<and> recImpressions metrics > 100)
       \<lparr>id' = ''low-ctr'', type' = Warning, priority = 2,
        title = [Str ''Low click rate on recommendations''],
        message = [Str ''Only '', ToFixed (recCTR metrics) 1,
                   Str ''% of people click. Try showing fewer, more relevant products or add images to make offers stand out.''],
        action = Some \<lparr>label = ''Improve FBT'', url = ''/admin/bundles''\<rparr>,
        score = 82\<rparr>
     @ push_if (recCTR metrics > 3 \<and> conversionRate metrics < 1 \<and> recClicks metrics > 20)
       \<lparr>id' = ''low-conversion'', type' = Warning, priority = 2,
        title = [Str ''Good clicks, but few sales''],
        message = [ToFixed (recCTR metrics) 1, Str ''% click rate is great, but only '',
                   ToFixed (conversionRate metrics) 1, Str ''% buy. Your pricing might be too high.''],
        action = Some \<lparr>label = ''Review pricing'', url = ''/admin/bundles''\<rparr>,
        score = 80\<rparr>
     @ (let reachingRate =
              (if totalOrders metrics > 0
               then (ordersReachingFreeShipping metrics / totalOrders metrics) * 100 else 0)
        in push_if (freeShippingEnabled metrics \<and> freeShippingThreshold metrics > 0
                    \<and> reachingRate < 15 \<and> reachingRate > 0)
             \<lparr>id' = ''shipping-low'', type' = Warning, priority = 2,
              title = [Str ''Very few reach free shipping''],
              message = [Str ''Only '', ToFixed reachingRate 0,
                         Str ''% of shoppers reach your threshold. Try lowering it to boost order value.''],
              action = Some \<lparr>label = ''Adjust threshold'', url = ''/admin/settings''\<rparr>,
              score = 78\<rparr>)
     @ push_if (\<not> aiRecommendationsEnabled metrics \<and> totalOrders metrics > 20
                \<and> activeBundleCount metrics > 0)
       \<lparr>id' = ''ai-disabled'', type' = Warning, priority = 2,
        title = [Str ''You have enough data for AI recommendations''],
        message = [Str ''With '', ToString (totalOrders metrics),
                   Str '' orders, AI can find winning product combinations automatically. Turn it on to save time.''],
        action = Some \<lparr>label = ''Enable AI'', url = ''/admin/settings''\<rparr>,
        score = 77\<rparr>
     @ push_if (attributedOrders metrics = 1 \<and> appInstalledDays metrics < 30)
       \<lparr>id' = ''first-sale'', type' = Success, priority = 4,
        title = [Str (''First sale! '' @ [CHR 0xC3, CHR 0xB0, CHR 0xC5, CHR 0xB8, CHR 0xC5, CHR 0xBD,
                                           CHR 0xE2, CHR 0x80, CHR 0xB0])],
        message = [Str ''Your FBT offers just made their first sale. Keep testing different products and discounts to see what works best.''],
        action = None,
        score = 70\<rparr>
     @ push_if (roi metrics > 10 \<and> attributedRevenue metrics > 100)
       \<lparr>id' = ''strong-roi'', type' = Success, priority = 4,
        title = [ToFixed (roi metrics) 0, Str ''x return on investment''],
        message = [Str ''For every dollar spent on Cart Uplift, you're making $'',
                   ToFixed (roi metrics) 0, Str ''. This is working really well.''],
        action = None,
        score = 65\<rparr>
     @ push_if (recCTR metrics > 5 \<and> recImpressions metrics > 50)
       \<lparr>id' = ''high-ctr'', type' = Success, priority = 4,
        title = [Str ''Excellent click rate!''],
        message = [ToFixed (recCTR metrics) 1,
                   Str ''% click rate is well above average. Your product pairings are resonating with customers.''],
        action = Some \<lparr>label = ''See top offers'', url = ''/admin/bundles''\<rparr>,
        score = 68\<rparr>
     @ push_if (conversionRate metrics > 5 \<and> recClicks metrics > 20)
       \<lparr>id' = ''high-conversion'', type' = Success, priority = 4,
        title = [Str ''Great conversion rate''],
        message = [ToFixed (conversionRate metrics) 1,
                   Str ''% of clicks turn into sales. Whatever you're doing, keep it up!''],
        action = None,
        score = 66\<rparr>
     @ push_if (appInstalledDays metrics < 7 \<and> recImpressions metrics < 10)
       \<lparr>id' = ''getting-started'', type' = Info, priority = 5,
        title = [Str ''Getting started with Cart Uplift''],
        message = [Str ''Add the FBT block to your product pages and cart. Most stores see their first sale within 3 days.''],
        action = Some \<lparr>label = ''Setup guide'', url = ''/admin/settings''\<rparr>,
        score = 60\<rparr>
     @ (case lastMLUpdate metrics of
          None \<Rightarrow> []
        | Some updated \<Rightarrow>
            (let daysSinceUpdate = (now - updated) div (1000 * 60 * 60 * 24)
             in push_if (mlPerformanceChange metrics > 10 \<and> daysSinceUpdate < 7)
                  \<lparr>id' = ''ml-improving'', type' = Info, priority = 5,
                   title = [Str ''AI is learning and improving''],
                   message = [Str ''Your click rate improved by '', ToFixed (mlPerformanceChange metrics) 0,
                              Str ''% this week as the AI learns what customers want.''],
                   action = None,
                   score = 55\<rparr>))"

text \<open>
  \<^verbatim>\<open>insights.sort((a, b) => b.score - a.score)\<close> is a stable sort by descending score,
  \<^verbatim>\<open>slice(0, 4)\<close> keeps the first four, and the \<^verbatim>\<open>map\<close> drops the field \<^verbatim>\<open>score\<close>.
\<close>

definition generateInsights :: "int \<Rightarrow> DashboardMetrics \<Rightarrow> InsightCardProps list" where
  "generateInsights now metrics =
     map InsightCardProps.truncate
       (take 4 (sort_key (\<lambda>a. - score a) (scored_insights now metrics)))"

text \<open>The fourteen kinds of card, by their ids in the order of the conditionals, and
  the score of each kind.\<close>

definition insight_kinds :: "string list" where
  "insight_kinds =
     [''no-visibility'', ''cart-disabled'', ''no-bundles'', ''no-clicks'', ''low-ctr'',
      ''low-conversion'', ''shipping-low'', ''ai-disabled'', ''first-sale'', ''strong-roi'',
      ''high-ctr'', ''high-conversion'', ''getting-started'', ''ml-improving'']"

definition static_score :: "string \<Rightarrow> real" where
  "static_score i =
     (if i = ''no-visibility'' then 100
      else if i = ''no-bundles'' then 97
      else if i = ''cart-disabled'' then 95
      else if i = ''no-clicks'' then 85
      else if i = ''low-ctr'' then 82
      else if i = ''low-conversion'' then 80
      else if i = ''shipping-low'' then 78
      else if i = ''ai-disabled'' then 77
      else if i = ''first-sale'' then 70
      else if i = ''high-ctr'' then 68
      else if i = ''high-conversion'' then 66
      else if i = ''strong-roi'' then 65
      else if i = ''getting-started'' then 60
      else if i = ''ml-improving'' then 55
      else 0)"

text \<open>The condition under which the card of a kind is pushed, kind by kind: the tests
  of the fourteen \<^verbatim>\<open>if\<close> statements.\<close>

definition insight_applies :: "int \<Rightarrow> DashboardMetrics \<Rightarrow> string \<Rightarrow> bool" where
  "insight_applies now metrics i =
     (if i = ''no-visibility'' then \<not> recommendationsVisible metrics \<and> appInstalledDays metrics > 3
      else if i = ''cart-disabled'' then \<not> cartEnabled metrics \<and> totalOrders metrics > 10
      else if i = ''no-bundles'' then activeBundleCount metrics = 0 \<and> appInstalledDays metrics > 7
      else if i = ''no-clicks'' then recImpressions metrics > 50 \<and> recClicks metrics = 0
      else if i = ''low-ctr'' then recCTR metrics < 2 \<and> recImpressions metrics > 100
      else if i = ''low-conversion'' then
        recCTR metrics > 3 \<and> conversionRate metrics < 1 \<and> recClicks metrics > 20
      else if i = ''shipping-low'' then
        freeShippingEnabled metrics \<and> freeShippingThreshold metrics > 0
        \<and> (let reachingRate =
                 (if totalOrders metrics > 0
                  then (ordersReachingFreeShipping metrics / totalOrders metrics) * 100 else 0)
           in reachingRate < 15 \<and> reachingRate > 0)
      else if i = ''ai-disabled'' then
        \<not> aiRecommendationsEnabled metrics \<and> totalOrders metrics > 20 \<and> activeBundleCount metrics > 0
      else if i = ''first-sale'' then attributedOrders metrics = 1 \<and> appInstalledDays metrics < 30
      else if i = ''strong-roi'' then roi metrics > 10 \<and> attributedRevenue metrics > 100
      else if i = ''high-ctr'' then recCTR metrics > 5 \<and> recImpressions metrics > 50
      else if i = ''high-conversion'' then conversionRate metrics > 5 \<and> recClicks metrics > 20
      else if i = ''getting-started'' then appInstalledDays metrics < 7 \<and> recImpressions metrics < 10
      else if i = ''ml-improving'' then
        (case lastMLUpdate metrics of
           None \<Rightarrow> False
         | Some updated \<Rightarrow>
             mlPerformanceChange metrics > 10 \<and> (now - updated) div (1000 * 60 * 60 * 24) < 7)
      else False)"

text \<open>
  A shop one year after the install, with the cart drawer and the recommendations
  switched off and no bundle: seven of the conditions hold.  Three more shops: one ten
  days after the install whose offers are seen and not clicked, one whose offers are
  clicked and seldom bought, and one two days after the install whose few clicks
  convert well.
\<close>

definition neglected_shop :: DashboardMetrics where
  "neglected_shop =
     \<lparr>cartEnabled = False, recommendationsVisible = False, appInstalledDays = 365,
      totalOrders = 1200, totalRevenue = 48000, attributedRevenue = 5200, attributedOrders = 130,
      activeBundleCount = 0, recImpressions = 9000, recClicks = 540, recCTR = 6,
      conversionRate = 2.5, aiRecommendationsEnabled = False, freeShippingEnabled = True,
      freeShippingThreshold = 50, ordersReachingFreeShipping = 120, roi = 12,
      lastMLUpdate = Some 1699900000000, mlPerformanceChange = 14\<rparr>"

definition unclicked_shop :: DashboardMetrics where
  "unclicked_shop =
     \<lparr>cartEnabled = True, recommendationsVisible = True, appInstalledDays = 10,
      totalOrders = 40, totalRevenue = 1600, attributedRevenue = 30, attributedOrders = 1,
      activeBundleCount = 2, recImpressions = 500, recClicks = 0, recCTR = 0,
      conversionRate = 0, aiRecommendationsEnabled = False, freeShippingEnabled = False,
      freeShippingThreshold = 0, ordersReachingFreeShipping = 0, roi = 0,
      lastMLUpdate = None, mlPerformanceChange = 0\<rparr>"

definition overpriced_shop :: DashboardMetrics where
  "overpriced_shop =
     \<lparr>cartEnabled = True, recommendationsVisible = True, appInstalledDays = 90,
      totalOrders = 300, totalRevenue = 12000, attributedRevenue = 40, attributedOrders = 2,
      activeBundleCount = 3, recImpressions = 750, recClicks = 30, recCTR = 4,
      conversionRate = 0.5, aiRecommendationsEnabled = True, freeShippingEnabled = False,
      freeShippingThreshold = 0, ordersReachingFreeShipping = 0, roi = 1,
      lastMLUpdate = None, mlPerformanceChange = 0\<rparr>"

definition promising_shop :: DashboardMetrics where
  "promising_shop =
     \<lparr>cartEnabled = True, recommendationsVisible = True, appInstalledDays = 2,
      totalOrders = 5, totalRevenue = 200, attributedRevenue = 80, attributedOrders = 2,
      activeBundleCount = 1, recImpressions = 9, recClicks = 25, recCTR = 3,
      conversionRate = 8, aiRecommendationsEnabled = True, freeShippingEnabled = False,
      freeShippingThreshold = 0, ordersReachingFreeShipping = 0, roi = 2,
      lastMLUpdate = None, mlPerformanceChange = 0\<rparr>"

section \<open>Money formatting (app/utils/formatters.ts)\<close>

text \<open>
  A JavaScript number is \<^verbatim>\<open>NaN\<close>, an infinity, the negative zero or a real (\<open>Finite 0\<close>
  is the positive zero).  The parameter \<^verbatim>\<open>amount\<close> is declared a number and tested for
  being a string at run time, so it is either.  \<^verbatim>\<open>isNaN\<close> of a number is true of \<^verbatim>\<open>NaN\<close>
  only.
\<close>

datatype number = NaN | Finite real | NegZero | PosInfinity | NegInfinity

datatype amount_value = OfNumber number | OfString string

datatype format_error = RangeError

datatype warning_line = InvalidAmount amount_value

text \<open>
  \<^verbatim>\<open>new Intl.NumberFormat('en-US', { style: 'currency', currency: currencyCode })\<close>
  checks the currency code (ECMA-402, IsWellFormedCurrencyCode: three characters, all
  of them ASCII letters of either case) and throws a \<^verbatim>\<open>RangeError\<close> if it is not
  well-formed (\<open>None\<close>); otherwise it gives a formatter, whose \<^verbatim>\<open>format\<close> maps every number
  to a string.  The texts themselves are the platform's: \<open>format currencyCode n\<close> is the
  en-US currency formatting of \<open>n\<close> in the currency, a parameter, as is \<^verbatim>\<open>parseFloat\<close>.
\<close>

definition is_ascii_letter :: "char \<Rightarrow> bool" where
  "is_ascii_letter c \<longleftrightarrow>
     (let n = of_char c :: nat in (65 \<le> n \<and> n \<le> 90) \<or> (97 \<le> n \<and> n \<le> 122))"

definition isWellFormedCurrencyCode :: "string \<Rightarrow> bool" where
  "isWellFormedCurrencyCode currency \<longleftrightarrow> length currency = 3 \<and> list_all is_ascii_letter currency"

definition numberFormat :: "(string \<Rightarrow> number \<Rightarrow> string) \<Rightarrow> string \<Rightarrow> (number \<Rightarrow> string) option" where
  "numberFormat format currencyCode =
     (if isWellFormedCurrencyCode currencyCode then Some (format currencyCode) else None)"

text \<open>
  \<open>debugMode\<close> is \<^verbatim>\<open>typeof process !== 'undefined' && process.env.DEBUG_MODE === 'true'\<close>.
  The result is the returned string or the error thrown, with what \<^verbatim>\<open>console.warn\<close>
  printed.
\<close>

definition formatMoney ::
  "(string \<Rightarrow> number \<Rightarrow> string) \<Rightarrow> (string \<Rightarrow> number) \<Rightarrow> bool
     \<Rightarrow> amount_value \<Rightarrow> string \<Rightarrow> (format_error + string) \<times> warning_line list" where
  "formatMoney format parseFloat debugMode amount currencyCode =
     (let numericAmount = (case amount of OfString s \<Rightarrow> parseFloat s | OfNumber n \<Rightarrow> n)
      in if numericAmount = NaN then
           (let warned = (if debugMode then [InvalidAmount amount] else [])
            in case numberFormat format currencyCode of
                 None \<Rightarrow> (Inl RangeError, warned)
               | Some formatter \<Rightarrow> (Inr (formatter (Finite 0)), warned))
         else
           (case numberFormat format currencyCode of
              None \<Rightarrow> (Inl RangeError, [])
            | Some formatter \<Rightarrow> (Inr (formatter numericAmount), [])))"

text \<open>A stand-in for the platform's texts: the currency code, a space and a tag for
  the amount (the zeros and everything else told apart); \<^verbatim>\<open>parseFloat\<close> that understands
  no input.\<close>

definition tagged_format :: "string \<Rightarrow> number \<Rightarrow> string" where
  "tagged_format code n =
     code @ '' '' @ (case n of Finite x \<Rightarrow> (if x = 0 then ''0.00'' else ''#.##'')
                             | NegZero \<Rightarrow> ''-0.00''
                             | NaN \<Rightarrow> ''NaN'' | PosInfinity \<Rightarrow> ''inf'' | NegInfinity \<Rightarrow> ''-inf'')"

definition parse_nothing :: "string \<Rightarrow> number" where
  "parse_nothing s = NaN"

section \<open>Properties of the webhook utilities\<close>

subsection \<open>The shape of a run of the retry loop\<close>

lemma logger_error_eq:
  "logger_error debugMode serialise msg metadata =
     (case serialise metadata of
        None \<Rightarrow> None
      | Some metaStr \<Rightarrow> Some [LogLine ERROR msg metaStr])"
  by (simp add: logger_error_def logMessage_def shouldLog_def formatLog_def split: option.splits)

lemma retry_loop_done:
  "\<not> of_int a \<le> m \<Longrightarrow> retry_loop d ser h m a le s = (Inl (LastError le), s, [])"
  by (subst retry_loop.simps) simp

lemma retry_loop_ok:
  "of_int a \<le> m \<Longrightarrow> h s = (None, s') \<Longrightarrow> retry_loop d ser h m a le s = (Inr (), s', [Invoked None])"
  by (subst retry_loop.simps) simp

lemma retry_loop_abort:
  "of_int a \<le> m \<Longrightarrow> h s = (Some e, s') \<Longrightarrow> ser e = None \<Longrightarrow>
   retry_loop d ser h m a le s = (Inl TypeError, s', [Invoked (Some e)])"
  by (subst retry_loop.simps) (simp add: logger_error_eq)

lemma retry_loop_fail:
  "of_int a \<le> m \<Longrightarrow> h s = (Some e, s') \<Longrightarrow> ser e = Some meta \<Longrightarrow>
   retry_loop d ser h m (a + 1) (Some e) s' = (r, s'', evs) \<Longrightarrow>
   retry_loop d ser h m a le s =
     (r, s'', [Invoked (Some e), Console (LogLine ERROR (AttemptFailed a) meta)]
              @ (if of_int a < m then [Sleep (2 ^ nat a * 1000)] else []) @ evs)"
  by (subst retry_loop.simps) (simp add: logger_error_eq)

lemma outcomes_append: "outcomes (xs @ ys) = outcomes xs @ outcomes ys"
  by (induction xs rule: outcomes.induct) auto

lemma delays_append: "delays (xs @ ys) = delays xs @ delays ys"
  by (induction xs rule: delays.induct) auto

lemma logged_attempts_append: "logged_attempts (xs @ ys) = logged_attempts xs @ logged_attempts ys"
  by (induction xs rule: logged_attempts.induct) auto

lemma schedule_append: "schedule (xs @ ys) = schedule xs @ schedule ys"
  by (induction xs rule: schedule.induct) auto

lemma retry_loop_cases [case_names finished resolved aborted rejected]:
  assumes "\<not> of_int a \<le> m \<Longrightarrow> retry_loop d ser h m a le s = (Inl (LastError le), s, []) \<Longrightarrow> P"
    and "\<And>s'. of_int a \<le> m \<Longrightarrow> h s = (None, s') \<Longrightarrow>
           retry_loop d ser h m a le s = (Inr (), s', [Invoked None]) \<Longrightarrow> P"
    and "\<And>e s'. of_int a \<le> m \<Longrightarrow> h s = (Some e, s') \<Longrightarrow> ser e = None \<Longrightarrow>
           retry_loop d ser h m a le s = (Inl TypeError, s', [Invoked (Some e)]) \<Longrightarrow> P"
    and "\<And>e s' meta r s'' evs. of_int a \<le> m \<Longrightarrow> h s = (Some e, s') \<Longrightarrow> ser e = Some meta \<Longrightarrow>
           retry_loop d ser h m (a + 1) (Some e) s' = (r, s'', evs) \<Longrightarrow>
           retry_loop d ser h m a le s =
             (r, s'', [Invoked (Some e), Console (LogLine ERROR (AttemptFailed a) meta)]
                      @ (if of_int a < m then [Sleep (2 ^ nat a * 1000)] else []) @ evs) \<Longrightarrow> P"
  shows P
proof (cases "of_int a \<le> m")
  case False
  then show ?thesis by (intro assms(1)) (simp_all add: retry_loop_done)
next
  case True
  obtain x s' where hs: "h s = (x, s')" by (cases "h s")
  show ?thesis
  proof (cases x)
    case None
    with True hs show ?thesis by (intro assms(2)[of s']) (simp_all add: retry_loop_ok)
  next
    case (Some e)
    show ?thesis
    proof (cases "ser e")
      case None
      with True hs Some show ?thesis by (intro assms(3)[of e s']) (simp_all add: retry_loop_abort)
    next
      case (Some meta)
      obtain r s'' evs where "retry_loop d ser h m (a + 1) (Some e) s' = (r, s'', evs)"
        by (cases "retry_loop d ser h m (a + 1) (Some e) s'") auto
      with True hs \<open>x = Some e\<close> Some show ?thesis
        by (intro assms(4)[of e s' meta r s'' evs]) (simp_all add: retry_loop_fail)
    qed
  qed
qed

lemma retry_measure_0: "0 = nat (\<lfloor>m :: real\<rfloor> + 1 - a) \<Longrightarrow> \<not> of_int a \<le> m"
  by (simp add: le_floor_iff[symmetric])

lemma retry_measure_Suc: "Suc n = nat (\<lfloor>m :: real\<rfloor> + 1 - a) \<Longrightarrow> of_int a \<le> m \<and> n = nat (\<lfloor>m\<rfloor> + 1 - (a + 1))"
  by (simp add: le_floor_iff[symmetric]) linarith

lemma retry_loop_shape:
  "length (outcomes (snd (snd (retry_loop d ser h m a le s)))) \<le> nat (\<lfloor>m\<rfloor> + 1 - a)
   \<and> list_all (\<lambda>x. x \<noteq> None) (butlast (outcomes (snd (snd (retry_loop d ser h m a le s)))))
   \<and> (of_int a \<le> m \<longrightarrow> outcomes (snd (snd (retry_loop d ser h m a le s))) \<noteq> []
        \<and> (last (outcomes (snd (snd (retry_loop d ser h m a le s)))) = None
             \<longrightarrow> fst (retry_loop d ser h m a le s) = Inr ())
        \<and> (\<forall>e. last (outcomes (snd (snd (retry_loop d ser h m a le s)))) = Some e \<longrightarrow>
                (fst (retry_loop d ser h m a le s) = Inl (LastError (Some e))
                 \<and> ser e \<noteq> None
                 \<and> length (outcomes (snd (snd (retry_loop d ser h m a le s)))) = nat (\<lfloor>m\<rfloor> + 1 - a))
                \<or> (fst (retry_loop d ser h m a le s) = Inl TypeError \<and> ser e = None)))"
proof (induction "nat (\<lfloor>m\<rfloor> + 1 - a)" arbitrary: a le s)
  case 0
  then have "\<not> of_int a \<le> m" by (rule retry_measure_0)
  then show ?case by (simp add: retry_loop_done)
next
  case (Suc n)
  from retry_measure_Suc[OF Suc(2)] have am: "of_int a \<le> m" and n: "n = nat (\<lfloor>m\<rfloor> + 1 - (a + 1))"
    by simp_all
  from am have af: "a \<le> \<lfloor>m\<rfloor>" by (simp add: le_floor_iff)
  show ?case
  proof (cases d ser h m a le s rule: retry_loop_cases)
    case finished
    with am show ?thesis by simp
  next
    case (resolved s')
    then show ?thesis using af by simp
  next
    case (aborted e s')
    then show ?thesis using af by simp
  next
    case (rejected e s' meta r s'' evs)
    note IH = Suc(1)[OF n, of "Some e" s', unfolded rejected(4), simplified]
    define os where "os = outcomes evs"
    have os: "outcomes (snd (snd (retry_loop d ser h m a le s))) = Some e # os"
      and r: "fst (retry_loop d ser h m a le s) = r"
      using rejected(5) by (simp_all add: outcomes_append os_def)
    show ?thesis
    proof (cases "of_int (a + 1) \<le> m")
      case True
      then have a1: "a + 1 \<le> \<lfloor>m\<rfloor>" by (simp add: le_floor_iff)
      from IH True have ne: "os \<noteq> []" and len: "length os \<le> nat (\<lfloor>m\<rfloor> - a)"
        and all: "list_all (\<lambda>x. x \<noteq> None) (butlast os)"
        and res: "last os = None \<longrightarrow> r = Inr ()"
          "\<forall>e. last os = Some e \<longrightarrow>
             (r = Inl (LastError (Some e)) \<and> ser e \<noteq> None \<and> length os = nat (\<lfloor>m\<rfloor> - a))
             \<or> (r = Inl TypeError \<and> ser e = None)"
        by (simp_all add: os_def)
      have suc: "nat (\<lfloor>m\<rfloor> + 1 - a) = Suc (nat (\<lfloor>m\<rfloor> - a))" using af by simp
      show ?thesis
        unfolding os r suc using ne len all res am by simp
    next
      case False
      from retry_loop_done[OF this, of d ser h "Some e" s'] rejected(4)
      have e: "evs = []" "r = Inl (LastError (Some e))" by auto
      from False have "\<not> a + 1 \<le> \<lfloor>m\<rfloor>" by (simp add: le_floor_iff)
      with af have "nat (\<lfloor>m\<rfloor> + 1 - a) = 1" by simp
      with e rejected(3) am show ?thesis unfolding os r by (simp add: os_def)
    qed
  qed
qed

text \<open>The trace of a run from the attempt number \<open>a\<close> on: the attempts \<open>a\<close>, ...,
  \<open>a + c - 1\<close> failed and were logged; then the attempt \<open>a + c\<close> was made and was the
  last one, or it was not made since \<open>a + c\<close> exceeds \<open>m\<close>.\<close>

lemma retry_loop_trace:
  "\<exists>c. logged_attempts (snd (snd (retry_loop d ser h m a le s))) = map (\<lambda>i. a + int i) [0 ..< c]
     \<and> delays (snd (snd (retry_loop d ser h m a le s)))
         = map (\<lambda>k. 2 ^ nat k * 1000)
             (filter (\<lambda>k. of_int k < m) (logged_attempts (snd (snd (retry_loop d ser h m a le s)))))
     \<and> (if of_int (a + int c) \<le> m
        then length (outcomes (snd (snd (retry_loop d ser h m a le s)))) = Suc c
        else length (outcomes (snd (snd (retry_loop d ser h m a le s)))) = c)"
proof (induction "nat (\<lfloor>m\<rfloor> + 1 - a)" arbitrary: a le s)
  case 0
  then have "\<not> of_int a \<le> m" by (rule retry_measure_0)
  then show ?case by (intro exI[of _ 0]) (simp add: retry_loop_done)
next
  case (Suc n)
  from retry_measure_Suc[OF Suc(2)] have am: "of_int a \<le> m" and n: "n = nat (\<lfloor>m\<rfloor> + 1 - (a + 1))"
    by simp_all
  show ?case
  proof (cases d ser h m a le s rule: retry_loop_cases)
    case finished
    with am show ?thesis by simp
  next
    case (resolved s')
    then show ?thesis using am by (intro exI[of _ 0]) simp
  next
    case (aborted e s')
    then show ?thesis using am by (intro exI[of _ 0]) simp
  next
    case (rejected e s' meta r s'' evs)
    from Suc(1)[OF n, of "Some e" s', unfolded rejected(4) snd_conv]
    obtain c where lg: "logged_attempts evs = map (\<lambda>i. a + 1 + int i) [0 ..< c]"
      and dl: "delays evs = map (\<lambda>k. 2 ^ nat k * 1000) (filter (\<lambda>k. of_int k < m) (logged_attempts evs))"
      and ln: "if of_int (a + 1 + int c) \<le> m then length (outcomes evs) = Suc c
               else length (outcomes evs) = c"
      by blast
    have shift: "map (\<lambda>i. a + int i) [0 ..< Suc c] = a # map (\<lambda>i. a + 1 + int i) [0 ..< c]"
      by (simp add: upt_conv_Cons map_Suc_upt[symmetric] del: upt_Suc)
    have ev: "snd (snd (retry_loop d ser h m a le s))
        = [Invoked (Some e), Console (LogLine ERROR (AttemptFailed a) meta)]
          @ (if of_int a < m then [Sleep (2 ^ nat a * 1000)] else []) @ evs"
      using rejected(5) by simp
    have "logged_attempts (snd (snd (retry_loop d ser h m a le s))) = map (\<lambda>i. a + int i) [0 ..< Suc c]"
      unfolding ev shift using lg by (simp add: logged_attempts_append)
    moreover have "delays (snd (snd (retry_loop d ser h m a le s)))
         = map (\<lambda>k. 2 ^ nat k * 1000)
             (filter (\<lambda>k. of_int k < m) (logged_attempts (snd (snd (retry_loop d ser h m a le s)))))"
      unfolding ev using dl by (simp add: logged_attempts_append delays_append)
    moreover have "if of_int (a + int (Suc c)) \<le> m
        then length (outcomes (snd (snd (retry_loop d ser h m a le s)))) = Suc (Suc c)
        else length (outcomes (snd (snd (retry_loop d ser h m a le s)))) = Suc c"
      unfolding ev using ln by (simp add: outcomes_append add.assoc add.commute)
    ultimately show ?thesis by (intro exI[of _ "Suc c"]) simp
  qed
qed

text \<open>The schedule of a run from the attempt number \<open>a\<close> on: each attempt that failed
  and was logged, with the wait that follows it at once if its number is below \<open>m\<close>;
  then the last attempt, if it was not logged.\<close>

lemma retry_loop_schedule:
  "schedule (snd (snd (retry_loop d ser h m a le s)))
     = concat (map (\<lambda>k. Attempt # (if of_int k < m then [Wait (2 ^ nat k * 1000)] else []))
                 (logged_attempts (snd (snd (retry_loop d ser h m a le s)))))
       @ replicate (length (outcomes (snd (snd (retry_loop d ser h m a le s))))
                    - length (logged_attempts (snd (snd (retry_loop d ser h m a le s))))) Attempt"
proof (induction "nat (\<lfloor>m\<rfloor> + 1 - a)" arbitrary: a le s)
  case 0
  then have "\<not> of_int a \<le> m" by (rule retry_measure_0)
  then show ?case by (simp add: retry_loop_done)
next
  case (Suc n)
  from retry_measure_Suc[OF Suc(2)] have am: "of_int a \<le> m" and n: "n = nat (\<lfloor>m\<rfloor> + 1 - (a + 1))"
    by simp_all
  show ?case
  proof (cases d ser h m a le s rule: retry_loop_cases)
    case finished
    with am show ?thesis by simp
  next
    case (resolved s')
    then show ?thesis by simp
  next
    case (aborted e s')
    then show ?thesis by simp
  next
    case (rejected e s' meta r s'' evs)
    note IH = Suc(1)[OF n, of "Some e" s', unfolded rejected(4) snd_conv]
    have ev: "snd (snd (retry_loop d ser h m a le s))
        = [Invoked (Some e), Console (LogLine ERROR (AttemptFailed a) meta)]
          @ (if of_int a < m then [Sleep (2 ^ nat a * 1000)] else []) @ evs"
      using rejected(5) by simp
    show ?thesis
      unfolding ev using IH
      by (simp add: schedule_append logged_attempts_append outcomes_append)
  qed
qed

text \<open>A run that does not end with the loop's condition failing is the same run under
  every larger bound: so it is with no bound at all, \<^verbatim>\<open>maxRetries = Infinity\<close>.\<close>

lemma retry_loop_bound_irrelevant:
  assumes "\<forall>x. fst (retry_loop d ser h m a le s) \<noteq> Inl (LastError x)" and "m \<le> m'"
  shows "retry_loop d ser h m' a le s = retry_loop d ser h m a le s"
  using assms(1)
proof (induction "nat (\<lfloor>m\<rfloor> + 1 - a)" arbitrary: a le s)
  case 0
  then have "\<not> of_int a \<le> m" by (intro retry_measure_0)
  with 0(2) show ?case by (simp add: retry_loop_done)
next
  case (Suc n)
  from retry_measure_Suc[OF Suc(2)] have am: "of_int a \<le> m" and n: "n = nat (\<lfloor>m\<rfloor> + 1 - (a + 1))"
    by simp_all
  from am assms(2) have am': "of_int a \<le> m'" by simp
  show ?case
  proof (cases d ser h m a le s rule: retry_loop_cases)
    case finished
    with am show ?thesis by simp
  next
    case (resolved s')
    then show ?thesis using am' by (simp add: retry_loop_ok)
  next
    case (aborted e s')
    then show ?thesis using am' by (simp add: retry_loop_abort)
  next
    case (rejected e s' meta r s'' evs)
    have r: "\<forall>x. r \<noteq> Inl (LastError x)" using Suc(3) rejected(5) by simp
    then have next_ok: "\<forall>x. fst (retry_loop d ser h m (a + 1) (Some e) s') \<noteq> Inl (LastError x)"
      using rejected(4) by simp
    have "of_int (a + 1) \<le> m"
    proof (rule ccontr)
      assume "\<not> of_int (a + 1) \<le> m"
      from retry_loop_done[OF this, of d ser h "Some e" s'] rejected(4) r show False by simp
    qed
    then have lt: "of_int a < m" "of_int a < m'" using assms(2) by simp_all
    from Suc(1)[OF n next_ok] rejected(4)
    have "retry_loop d ser h m' (a + 1) (Some e) s' = (r, s'', evs)" by simp
    from retry_loop_fail[OF am' rejected(2,3) this, of le] rejected(5) lt show ?thesis by simp
  qed
qed

lemmas retry_eval = handleWebhookWithRetry_def events_of_def result_of_def retry_loop.simps
  logger_error_eq failing_handler_def flaky_handler_def cyclic_handler_def

subsection \<open>The delay between attempts\<close>

text \<open>
  Claim C3 says that the delay between two consecutive attempts is one constant.
  It is not: with a handler that always rejects and \<open>maxRetries = 3\<close>, the loop waits
  2000 ms after the first attempt and 4000 ms after the second.
\<close>

theorem retry_delay_not_fixed:
  "delays (events_of (handleWebhookWithRetry False json_stringify failing_handler 3 ())) = [2000, 4000]"
  by (simp add: retry_eval)

text \<open>
  Claim C3, as amended: the loop backs off exponentially.  The attempts that fail and
  are logged are the attempts 1, ..., \<open>c\<close> of the run, which makes \<open>c\<close> or \<open>c + 1\<close>
  attempts; right after the failed attempt number \<open>k\<close>, and before the next attempt,
  the loop waits \<open>2 ^ k * 1000\<close> ms when \<open>k < maxRetries\<close>, and there is no other wait:
  none after a success, none after an attempt whose error the logger cannot print.  If \<open>maxRetries\<close> is an integer, these
  are the waits \<open>2 ^ k * 1000\<close> ms for \<open>k = 1, 2, ...\<close>, one after each attempt but the
  last.  If it is not, a wait follows every logged failure, also the one of the last
  attempt when all attempts fail: with \<open>maxRetries = 2.5\<close> the second attempt is the
  last one, and the call waits 4000 ms after it before it rejects.
\<close>

theorem retry_delay_exponential:
  assumes "evs = events_of (handleWebhookWithRetry debugMode serialise handler maxRetries s)"
  shows "logged_attempts evs = map int [1 ..< Suc (length (logged_attempts evs))]
     \<and> schedule evs
         = concat (map (\<lambda>k. Attempt # (if of_int k < maxRetries then [Wait (2 ^ nat k * 1000)] else []))
                     (logged_attempts evs))
           @ replicate (length (outcomes evs) - length (logged_attempts evs)) Attempt
     \<and> delays evs = map (\<lambda>k. 2 ^ nat k * 1000) (filter (\<lambda>k. of_int k < maxRetries) (logged_attempts evs))
     \<and> length (logged_attempts evs) \<le> length (outcomes evs)
     \<and> length (outcomes evs) \<le> Suc (length (logged_attempts evs))
     \<and> (maxRetries \<in> \<int> \<longrightarrow> delays evs = map (\<lambda>k. 2 ^ k * 1000) [1 ..< length (outcomes evs)])
     \<and> (maxRetries \<notin> \<int> \<longrightarrow> delays evs = map (\<lambda>k. 2 ^ k * 1000) [1 ..< Suc (length (logged_attempts evs))])"
proof -
  have evs: "evs = snd (snd (retry_loop debugMode serialise handler maxRetries 1 None s))"
    using assms by (simp add: handleWebhookWithRetry_def events_of_def)
  from retry_loop_trace[of debugMode serialise handler maxRetries 1 None s, folded evs]
  obtain c where lg: "logged_attempts evs = map (\<lambda>i. 1 + int i) [0 ..< c]"
    and dl: "delays evs = map (\<lambda>k. 2 ^ nat k * 1000) (filter (\<lambda>k. of_int k < maxRetries) (logged_attempts evs))"
    and ln: "if of_int (1 + int c) \<le> maxRetries then length (outcomes evs) = Suc c
             else length (outcomes evs) = c"
    by auto
  have c: "length (logged_attempts evs) = c" using lg by simp
  have lg': "logged_attempts evs = map int [1 ..< Suc c]"
    unfolding lg by (simp add: map_Suc_upt[symmetric] del: upt_Suc)
  have n: "c \<le> length (outcomes evs)" "length (outcomes evs) \<le> Suc c"
    using ln by (auto split: if_splits)
  have below: "real k < maxRetries" if "k < c" for k
  proof -
    have "1 \<le> c" using that by simp
    from retry_loop_shape[of debugMode serialise handler maxRetries 1 None s, folded evs] n(1)
    have "c \<le> nat \<lfloor>maxRetries\<rfloor>" by simp
    with that have "int k + 1 \<le> \<lfloor>maxRetries\<rfloor>" by linarith
    then have "of_int (int k + 1) \<le> maxRetries" by (simp only: le_floor_iff)
    then show ?thesis by simp
  qed
  have all_but_last: "filter (\<lambda>k. of_int k < maxRetries) (map int [1 ..< c]) = map int [1 ..< c]"
    by (rule filter_True) (auto intro: below)
  have split: "map int [1 ..< Suc c] = map int [1 ..< c] @ (if 1 \<le> c then [int c] else [])"
    by simp
  have pw: "map (\<lambda>k. 2 ^ nat k * 1000) (map int xs) = map (\<lambda>k. 2 ^ k * (1000::int)) xs" for xs
    by simp
  have int_case: "delays evs = map (\<lambda>k. 2 ^ k * 1000) [1 ..< length (outcomes evs)]" if "maxRetries \<in> \<int>"
  proof (cases "of_int (1 + int c) \<le> maxRetries")
    case True
    then have "real c < maxRetries" by simp
    then have "filter (\<lambda>k. of_int k < maxRetries) (map int [1 ..< Suc c]) = map int [1 ..< Suc c]"
      unfolding split using all_but_last by simp
    with dl lg' ln True show ?thesis by (simp only: pw if_True)
  next
    case False
    from that obtain z where z: "maxRetries = of_int z" by (auto elim: Ints_cases)
    have "\<not> int c < z"
    proof
      assume "int c < z"
      then have "1 + int c \<le> z" by simp
      then have "of_int (1 + int c) \<le> (of_int z :: real)" by (simp only: of_int_le_iff)
      with False z show False by simp
    qed
    then have "\<not> of_int (int c) < (of_int z :: real)" by (simp only: of_int_less_iff not_False_eq_True)
    then have "\<not> real c < maxRetries" unfolding z by simp
    then have "filter (\<lambda>k. of_int k < maxRetries) (map int [1 ..< Suc c]) = map int [1 ..< c]"
      unfolding split using all_but_last by simp
    with dl lg' ln False show ?thesis by (simp only: pw if_False)
  qed
  have real_case: "delays evs = map (\<lambda>k. 2 ^ k * 1000) [1 ..< Suc c]" if "maxRetries \<notin> \<int>"
  proof -
    have "real c < maxRetries" if "1 \<le> c"
    proof -
      from retry_loop_shape[of debugMode serialise handler maxRetries 1 None s, folded evs] n(1)
      have "c \<le> nat \<lfloor>maxRetries\<rfloor>" by simp
      with that have "int c \<le> \<lfloor>maxRetries\<rfloor>" by linarith
      then have "of_int (int c) \<le> maxRetries" by (simp only: le_floor_iff)
      moreover have "maxRetries \<noteq> of_int (int c)" using \<open>maxRetries \<notin> \<int>\<close> by auto
      ultimately show ?thesis by simp
    qed
    then have "filter (\<lambda>k. of_int k < maxRetries) (map int [1 ..< Suc c]) = map int [1 ..< Suc c]"
      unfolding split using all_but_last by simp
    with dl lg' show ?thesis by (simp only: pw)
  qed
  note sch = retry_loop_schedule[of debugMode serialise handler maxRetries 1 None s, folded evs]
  show ?thesis
    using lg' sch dl n int_case real_case unfolding c by simp
qed

text \<open>The theorem at the handler that resolves at its third invocation, and at the
  handler that always rejects, with \<open>maxRetries = 2.5\<close> and with \<open>maxRetries = 3\<close>.\<close>

theorem retry_delay_exponential_witness:
  "outcomes (events_of (handleWebhookWithRetry False json_stringify flaky_handler 5 0))
     = [Some Boom, Some Boom, None]
   \<and> logged_attempts (events_of (handleWebhookWithRetry False json_stringify flaky_handler 5 0)) = [1, 2]
   \<and> delays (events_of (handleWebhookWithRetry False json_stringify flaky_handler 5 0)) = [2000, 4000]
   \<and> outcomes (events_of (handleWebhookWithRetry False json_stringify failing_handler 2.5 ()))
     = [Some Boom, Some Boom]
   \<and> logged_attempts (events_of (handleWebhookWithRetry False json_stringify failing_handler 2.5 ())) = [1, 2]
   \<and> delays (events_of (handleWebhookWithRetry False json_stringify failing_handler 2.5 ())) = [2000, 4000]
   \<and> schedule (events_of (handleWebhookWithRetry False json_stringify failing_handler 2.5 ()))
     = [Attempt, Wait 2000, Attempt, Wait 4000]
   \<and> schedule (events_of (handleWebhookWithRetry False json_stringify failing_handler 3 ()))
     = [Attempt, Wait 2000, Attempt, Wait 4000, Attempt]"
  using retry_delay_exponential[OF refl, where debugMode = False and serialise = json_stringify
          and handler = flaky_handler and maxRetries = 5 and s = 0]
        retry_delay_exponential[OF refl, where debugMode = False and serialise = json_stringify
          and handler = failing_handler and maxRetries = "2.5" and s = "()"]
        retry_delay_exponential[OF refl, where debugMode = False and serialise = json_stringify
          and handler = failing_handler and maxRetries = 3 and s = "()"]
  by (simp add: retry_eval)

subsection \<open>Bounded retries\<close>

text \<open>
  What holds of every run with \<open>maxRetries \<ge> 1\<close>: the handler is invoked at least once
  and at most \<open>maxRetries\<close> times (rounded down, when it is no integer); every
  invocation but the last one failed, so nothing is invoked after a success; the call
  resolves when the last invocation succeeded.  When the last invocation failed with
  \<open>e\<close>, either the logger could serialise \<open>e\<close>, this was the last invocation that
  \<open>maxRetries\<close> allows and the call rejects with \<open>e\<close>; or the logger could not, and the
  call rejects with the logger's \<^verbatim>\<open>TypeError\<close>.
\<close>

lemma retry_bounded_stops_rethrows:
  assumes "1 \<le> maxRetries"
  shows "length (outcomes (events_of (handleWebhookWithRetry debugMode serialise handler maxRetries s))) \<le> nat \<lfloor>maxRetries\<rfloor>
    \<and> outcomes (events_of (handleWebhookWithRetry debugMode serialise handler maxRetries s)) \<noteq> []
    \<and> list_all (\<lambda>x. x \<noteq> None)
         (butlast (outcomes (events_of (handleWebhookWithRetry debugMode serialise handler maxRetries s))))
    \<and> (last (outcomes (events_of (handleWebhookWithRetry debugMode serialise handler maxRetries s))) = None
         \<longrightarrow> result_of (handleWebhookWithRetry debugMode serialise handler maxRetries s) = Inr ())
    \<and> (\<forall>e. last (outcomes (events_of (handleWebhookWithRetry debugMode serialise handler maxRetries s))) = Some e
         \<longrightarrow> (result_of (handleWebhookWithRetry debugMode serialise handler maxRetries s) = Inl (LastError (Some e))
              \<and> serialise e \<noteq> None
              \<and> length (outcomes (events_of (handleWebhookWithRetry debugMode serialise handler maxRetries s)))
                  = nat \<lfloor>maxRetries\<rfloor>)
             \<or> (result_of (handleWebhookWithRetry debugMode serialise handler maxRetries s) = Inl TypeError
                 \<and> serialise e = None))"
  using assms retry_loop_shape[of debugMode serialise handler maxRetries 1 None s]
  by (simp add: handleWebhookWithRetry_def events_of_def result_of_def)

text \<open>
  Claim C4 says that the handler is retried up to \<open>maxRetries\<close> times and that, when
  all attempts fail, the error of the last attempt is rethrown.  For a handler that
  rejects with an object holding a reference to itself this fails: with
  \<open>maxRetries = 1\<close> the one attempt fails and the call rejects with the \<^verbatim>\<open>TypeError\<close> of
  \<^verbatim>\<open>JSON.stringify\<close>, raised by \<^verbatim>\<open>logger.error\<close> in the \<^verbatim>\<open>catch\<close> block, not with the
  handler's error; with \<open>maxRetries = 3\<close> it does so after the first attempt, without
  a retry.  With an \<^verbatim>\<open>Error\<close> object the three attempts are made and the error is
  rethrown.
\<close>

theorem retry_logging_masks_error:
  "outcomes (events_of (handleWebhookWithRetry False json_stringify cyclic_handler 1 ())) = [Some Cyclic]
   \<and> result_of (handleWebhookWithRetry False json_stringify cyclic_handler 1 ()) = Inl TypeError
   \<and> outcomes (events_of (handleWebhookWithRetry False json_stringify cyclic_handler 3 ())) = [Some Cyclic]
   \<and> result_of (handleWebhookWithRetry False json_stringify cyclic_handler 3 ()) = Inl TypeError
   \<and> outcomes (events_of (handleWebhookWithRetry False json_stringify failing_handler 3 ()))
       = [Some Boom, Some Boom, Some Boom]
   \<and> result_of (handleWebhookWithRetry False json_stringify failing_handler 3 ()) = Inl (LastError (Some Boom))"
  by (simp add: retry_eval)

subsection \<open>The signature check\<close>

text \<open>
  Claim C5: the check is one comparison.  Given that the base64 digest is not the
  empty string (a base64 SHA-256 digest has 44 characters), the function returns true
  exactly when the signature is present and equal to the digest of the body under the
  secret; and it returns false, whatever the digest, when the signature is null.
\<close>

theorem verify_single_comparison:
  assumes "hmacBase64 secret rawBody \<noteq> []"
  shows "verifyWebhookSignature hmacBase64 rawBody signature secret
           = (signature = Some (hmacBase64 secret rawBody))
         \<and> verifyWebhookSignature hmacBase64 rawBody None secret = False"
  using assms by (auto simp: verifyWebhookSignature_def split: option.splits)

text \<open>The theorem with a stand-in for the digest: the matching signature is accepted,
  another one and null are refused.\<close>

theorem verify_single_comparison_witness:
  "verifyWebhookSignature (\<lambda>k m. ''c2lnbmF0dXJl'') ''{}'' (Some ''c2lnbmF0dXJl'') ''shh'' = True
   \<and> verifyWebhookSignature (\<lambda>k m. ''c2lnbmF0dXJl'') ''{}'' (Some ''forged'') ''shh'' = False
   \<and> verifyWebhookSignature (\<lambda>k m. ''c2lnbmF0dXJl'') ''{}'' None ''shh'' = False"
  using verify_single_comparison[of "\<lambda>k m. ''c2lnbmF0dXJl''" "''shh''" "''{}''" "Some ''c2lnbmF0dXJl''"]
        verify_single_comparison[of "\<lambda>k m. ''c2lnbmF0dXJl''" "''shh''" "''{}''" "Some ''forged''"]
  by simp

section \<open>Properties of the rate limiter\<close>

subsection \<open>The cache operations, key by key\<close>

lemma map_of_lru_remove:
  "map_of (lru_remove k c) k' = (if k' = k then None else map_of c k')"
  by (induction c) (auto simp: lru_remove_def)

lemma map_of_lru_mutate:
  "map_of (lru_mutate k v c) k'
     = (if k' = k then map_option (\<lambda>(v', start). (v, start)) (map_of c k) else map_of c k')"
  by (induction c) (auto simp: lru_mutate_def)

lemma map_of_take_cases:
  "map_of (take n xs) k = None \<or> map_of (take n xs) k = map_of xs k"
proof (induction xs arbitrary: n)
  case Nil
  then show ?case by simp
next
  case (Cons x xs)
  then show ?case by (cases n) auto
qed

lemma map_of_lru_set_same:
  "0 < n \<Longrightarrow> map_of (lru_set n now k v c) k = Some (v, now)"
  by (cases n) (simp_all add: lru_set_def)

lemma map_of_lru_get:
  "map_of (snd (lru_get ttl now k c)) k'
     = (if k' = k then (case map_of c k of None \<Rightarrow> None
                        | Some (v, start) \<Rightarrow> if now - start > ttl then None else Some (v, start))
        else map_of c k')"
  by (auto simp: lru_get_def lru_stale_def map_of_lru_remove split: option.splits)

lemma fst_lru_get:
  "fst (lru_get ttl now k c)
     = (case map_of c k of None \<Rightarrow> None
        | Some (v, start) \<Rightarrow> if now - start > ttl then None else Some v)"
  by (auto simp: lru_get_def lru_stale_def split: option.splits)

lemma lru_remove_absent: "map_of c k = None \<Longrightarrow> lru_remove k c = c"
  by (induction c) (auto simp: lru_remove_def split: if_splits)

lemma lru_mutate_absent: "map_of c k = None \<Longrightarrow> lru_mutate k v c = c"
  by (induction c) (auto simp: lru_mutate_def split: if_splits)

lemma lru_remove_mutate: "lru_remove k (lru_mutate k v c) = lru_mutate k v (lru_remove k c)"
  by (induction c) (auto simp: lru_remove_def lru_mutate_def)

lemma lru_remove_idem: "lru_remove k (lru_remove k c) = lru_remove k c"
  by (simp add: lru_remove_def)

lemma lru_remove_get: "lru_remove k (snd (lru_get ttl now k c)) = lru_remove k c"
  by (auto simp: lru_get_def lru_remove_absent lru_remove_idem split: option.splits)
     (simp add: lru_remove_def)

lemma length_lru_mutate: "length (lru_mutate k v c) = length c"
  by (simp add: lru_mutate_def)

lemma length_lru_remove: "length (lru_remove k c) \<le> length c"
  by (simp add: lru_remove_def)

lemma length_lru_remove_present:
  "map_of c k \<noteq> None \<Longrightarrow> length (lru_remove k c) < length c"
proof (induction c)
  case Nil
  then show ?case by simp
next
  case (Cons e c)
  show ?case
  proof (cases "fst e = k")
    case True
    then show ?thesis using length_lru_remove[of k c] by (simp add: lru_remove_def less_Suc_eq_le)
  next
    case False
    then have "map_of c k \<noteq> None" using Cons.prems by (cases e) auto
    from Cons.IH[OF this] False show ?thesis by (simp add: lru_remove_def)
  qed
qed

lemma map_of_lru_set_other:
  assumes "k' \<noteq> k"
  shows "map_of (lru_set n now k v c) k' = map_of c k' \<or> map_of (lru_set n now k v c) k' = None"
    and "length (lru_remove k c) < n \<Longrightarrow> map_of (lru_set n now k v c) k' = map_of c k'"
proof -
  have full: "map_of ((k, v, now) # lru_remove k c) k' = map_of c k'"
    using assms by (simp add: map_of_lru_remove)
  show "map_of (lru_set n now k v c) k' = map_of c k' \<or> map_of (lru_set n now k v c) k' = None"
    using map_of_take_cases[of n "(k, v, now) # lru_remove k c" k'] full
    by (auto simp: lru_set_def)
  show "map_of (lru_set n now k v c) k' = map_of c k'" if "length (lru_remove k c) < n"
    using that full by (simp add: lru_set_def)
qed

lemma touched_cache_other:
  assumes "k' \<noteq> k"
  shows "map_of (lru_mutate k b (snd (lru_get ttl now k c))) k' = map_of c k'"
  using assms by (simp add: map_of_lru_mutate map_of_lru_get)

lemma touched_cache_length:
  "length (lru_remove k (lru_mutate k b (snd (lru_get ttl now k c)))) = length (lru_remove k c)"
  by (simp add: lru_remove_mutate lru_remove_get length_lru_mutate)

subsection \<open>The two definitions in normal form\<close>

lemma rateLimit_unfold:
  "rateLimit ops shop sustainedLimit burstLimit now st =
     (let key = ''rate-limit:'' @ shop;
          b = window_resets now (loaded_bucket now (rateLimitCache st) key);
          c = lru_mutate key b (snd (lru_get 60000 now key (rateLimitCache st)));
          b' = b\<lparr>burstCount := burstCount b + 1, sustainedCount := sustainedCount b + 1\<rparr>
      in if of_int (burstCount b) \<ge> burstLimit then
           (Inl \<lparr>body = ''Too Many Requests (burst limit)'', status = 429,
                 headers =
                   [(''Retry-After'', Seconds (- ((- (burstReset b - now)) div 1000))),
                    (''X-RateLimit-Limit'', PerWindow burstLimit ''10s''),
                    (''X-RateLimit-Remaining'', Text ''0''),
                    (''X-RateLimit-Reset'', IsoDate (burstReset b))]\<rparr>,
            st\<lparr>rateLimitCache := c,
               logged := logged st @ [RateLimitExceeded shop ''burst'' ''burst-limit'']\<rparr>)
         else if of_int (sustainedCount b) \<ge> sustainedLimit then
           (Inl \<lparr>body = ''Too Many Requests'', status = 429,
                 headers =
                   [(''Retry-After'', Seconds (- ((- (sustainedReset b - now)) div 1000))),
                    (''X-RateLimit-Limit'', PerWindow sustainedLimit ''60s''),
                    (''X-RateLimit-Remaining'', Text ''0''),
                    (''X-RateLimit-Reset'', IsoDate (sustainedReset b))]\<rparr>,
            st\<lparr>rateLimitCache := c,
               logged := logged st @ [RateLimitExceeded shop ''sustained'' ''sustained-limit'']\<rparr>)
         else
           (Inr \<lparr>remaining = dsub ops sustainedLimit (of_int (sustainedCount b')),
                 reset = sustainedReset b',
                 burst = (of_int (burstCount b') > dmul ops burstLimit 0.7)\<rparr>,
            if of_int (sustainedCount b') > dmul ops sustainedLimit 0.4
                 \<and> \<not> lru_has 300000 now shop (highUsageLog st)
            then st\<lparr>rateLimitCache := lru_set 1000 now key b' c,
                    logged := logged st @ [HighUsage shop (sustainedCount b') sustainedLimit],
                    highUsageLog := lru_set 100 now shop (sustainedCount b') (highUsageLog st)\<rparr>
            else st\<lparr>rateLimitCache := lru_set 1000 now key b' c\<rparr>))"
proof -
  let ?key = "''rate-limit:'' @ shop"
  let ?c = "rateLimitCache st"
  let ?L = "loaded_bucket now ?c ?key"
  have G: "lru_get (60 * 1000) now ?key ?c = (live_entry now ?c ?key, snd (lru_get 60000 now ?key ?c))"
    by (simp add: live_entry_def lru_get_def lru_stale_def split: option.splits)
  have L: "(case live_entry now ?c ?key of Some b \<Rightarrow> b
            | None \<Rightarrow> \<lparr>burstCount = 0, burstReset = now + 10 * 1000,
                               sustainedCount = 0, sustainedReset = now + 60 * 1000\<rparr>) = ?L"
    by (simp add: loaded_bucket_def fresh_bucket_def split: option.splits)
  define B1 where "B1 = (if now \<ge> burstReset ?L
                    then ?L\<lparr>burstCount := 0, burstReset := now + 10 * 1000\<rparr>
                    else ?L)"
  have W: "(if now \<ge> sustainedReset B1
                    then B1\<lparr>sustainedCount := 0, sustainedReset := now + 60 * 1000\<rparr>
                    else B1) = window_resets now ?L"
    by (simp add: B1_def window_resets_def)
  show ?thesis
    apply (simp only: rateLimit_def G Let_def prod.case L B1_def[symmetric] W)
    apply (simp add: lru_has_def)
    done
qed

lemma rateLimit_minimal_unfold:
  "rateLimit_minimal ops shop sustainedLimit burstLimit now cache =
     (let key = ''rate-limit:'' @ shop;
          b = window_resets now (loaded_bucket now cache key);
          c = lru_mutate key b (snd (lru_get 60000 now key cache));
          b' = b\<lparr>burstCount := burstCount b + 1, sustainedCount := sustainedCount b + 1\<rparr>
      in if of_int (burstCount b) \<ge> burstLimit \<or> of_int (sustainedCount b) \<ge> sustainedLimit then
           (Inl \<lparr>body = ''Too Many Requests'', status = 429, headers = []\<rparr>, c)
         else
           (Inr \<lparr>remaining = dsub ops sustainedLimit (of_int (sustainedCount b')),
                 reset = sustainedReset b',
                 burst = (of_int (burstCount b') > dmul ops burstLimit 0.7)\<rparr>,
            lru_set 1000 now key b' c))"
proof -
  let ?key = "''rate-limit:'' @ shop"
  let ?c = "cache"
  let ?L = "loaded_bucket now ?c ?key"
  have G: "lru_get (60 * 1000) now ?key ?c = (live_entry now ?c ?key, snd (lru_get 60000 now ?key ?c))"
    by (simp add: live_entry_def lru_get_def lru_stale_def split: option.splits)
  have L: "(case live_entry now ?c ?key of Some b \<Rightarrow> b
            | None \<Rightarrow> \<lparr>burstCount = 0, burstReset = now + 10 * 1000,
                               sustainedCount = 0, sustainedReset = now + 60 * 1000\<rparr>) = ?L"
    by (simp add: loaded_bucket_def fresh_bucket_def split: option.splits)
  define B1 where "B1 = (if now \<ge> burstReset ?L
                    then ?L\<lparr>burstCount := 0, burstReset := now + 10 * 1000\<rparr>
                    else ?L)"
  have W: "(if now \<ge> sustainedReset B1
                    then B1\<lparr>sustainedCount := 0, sustainedReset := now + 60 * 1000\<rparr>
                    else B1) = window_resets now ?L"
    by (simp add: B1_def window_resets_def)
  show ?thesis
    apply (simp only: rateLimit_minimal_def G Let_def prod.case L B1_def[symmetric] W)
    apply simp
    done
qed

lemma live_entry_mutated_get:
  "map_of (lru_mutate k b (snd (lru_get 60000 now k c))) k'
     = (if k' = k then (case map_of c k of None \<Rightarrow> None
                        | Some (v, start) \<Rightarrow> if now - start > 60000 then None else Some (b, start))
        else map_of c k')"
  by (auto simp: map_of_lru_mutate map_of_lru_get split: option.splits)

lemma stored_after_reject:
  "stored_bucket (lru_mutate k b (snd (lru_get 60000 now k c))) k
     = map_option (\<lambda>_. b) (live_entry now c k)"
  by (auto simp: stored_bucket_def live_entry_def live_entry_mutated_get split: option.splits)

lemma stored_after_admit:
  "stored_bucket (lru_set 1000 now k b c) k = Some b"
  by (simp add: stored_bucket_def map_of_lru_set_same)

lemma rateLimit_key_after:
  assumes "rateLimit ops shop sl bl now st = (r, st')" and "key = ''rate-limit:'' @ shop"
  shows "map_of (rateLimitCache st') key =
     (let b = window_resets now (loaded_bucket now (rateLimitCache st) key)
      in if isl r then
           (case map_of (rateLimitCache st) key of
              None \<Rightarrow> None
            | Some (v, start) \<Rightarrow> if now - start > 60000 then None else Some (b, start))
         else Some (b\<lparr>burstCount := burstCount b + 1, sustainedCount := sustainedCount b + 1\<rparr>, now))"
  using assms
  by (auto simp: rateLimit_unfold Let_def live_entry_mutated_get map_of_lru_set_same
      simp del: map_of_eq_None_iff split: if_splits)

lemma rateLimit_isl:
  assumes "rateLimit ops shop sl bl now st = (r, st')"
  shows "isl r \<longleftrightarrow>
     (let b = window_resets now (loaded_bucket now (rateLimitCache st) (''rate-limit:'' @ shop))
      in of_int (burstCount b) \<ge> bl \<or> of_int (sustainedCount b) \<ge> sl)"
  using assms by (auto simp: rateLimit_unfold Let_def split: if_splits)

lemma rateLimit_cache_after:
  assumes "rateLimit ops shop sl bl now st = (r, st')" and "key = ''rate-limit:'' @ shop"
  shows "rateLimitCache st' =
     (let b = window_resets now (loaded_bucket now (rateLimitCache st) key);
          c = lru_mutate key b (snd (lru_get 60000 now key (rateLimitCache st)))
      in if isl r then c
         else lru_set 1000 now key
                (b\<lparr>burstCount := burstCount b + 1, sustainedCount := sustainedCount b + 1\<rparr>) c)"
  using assms by (auto simp: rateLimit_unfold Let_def split: if_splits)

lemma rateLimit_usage_after:
  assumes "rateLimit ops shop sl bl now st = (r, st')"
  shows "highUsageLog st' = highUsageLog st
       \<or> (\<exists>v. highUsageLog st' = lru_set 100 now shop v (highUsageLog st))"
  using assms by (auto simp: rateLimit_unfold Let_def split: if_splits)

lemma rateLimit_result_reads_key:
  assumes "map_of (rateLimitCache st2) (''rate-limit:'' @ shop) = map_of (rateLimitCache st) (''rate-limit:'' @ shop)"
  shows "fst (rateLimit ops shop sl bl now st2) = fst (rateLimit ops shop sl bl now st)"
proof -
  have "loaded_bucket now (rateLimitCache st2) (''rate-limit:'' @ shop)
      = loaded_bucket now (rateLimitCache st) (''rate-limit:'' @ shop)"
    using assms by (simp add: loaded_bucket_def live_entry_def)
  then show ?thesis
    by (simp add: rateLimit_unfold Let_def)
qed

lemma rateLimit_new_shop:
  assumes absent: "map_of (rateLimitCache st) (''rate-limit:'' @ shop) = None"
    and limits: "0 < bl" "0 < sl" "\<not> 1 > dmul ops sl 0.4"
  shows "rateLimit ops shop sl bl now st =
     (Inr \<lparr>remaining = dsub ops sl 1, reset = now + 60000, burst = (1 > dmul ops bl 0.7)\<rparr>,
      st\<lparr>rateLimitCache :=
           take 1000 ((''rate-limit:'' @ shop,
                       \<lparr>burstCount = 1, burstReset = now + 10000,
                        sustainedCount = 1, sustainedReset = now + 60000\<rparr>, now)
                      # rateLimitCache st)\<rparr>)"
proof -
  define key where "key = ''rate-limit:'' @ shop"
  have L: "window_resets now (loaded_bucket now (rateLimitCache st) key) = fresh_bucket now"
    using absent by (simp add: key_def loaded_bucket_def live_entry_def window_resets_def fresh_bucket_def)
  have G: "lru_mutate key (fresh_bucket now) (snd (lru_get 60000 now key (rateLimitCache st))) = rateLimitCache st"
    using absent by (simp add: key_def lru_get_def lru_mutate_absent)
  have R: "lru_remove key (rateLimitCache st) = rateLimitCache st"
    using absent by (simp add: key_def lru_remove_absent)
  show ?thesis
    unfolding rateLimit_unfold key_def[symmetric] Let_def L G
    using limits by (simp add: fresh_bucket_def lru_set_def R)
qed

lemma rateLimit_new_shop_exact:
  assumes absent: "map_of (rateLimitCache st) (''rate-limit:'' @ shop) = None"
    and limits: "0 < bl" "0 < sl" "\<not> 1 > sl * 0.4"
  shows "rateLimit exact_arith shop sl bl now st =
     (Inr \<lparr>remaining = sl - 1, reset = now + 60000, burst = (1 > bl * 0.7)\<rparr>,
      st\<lparr>rateLimitCache :=
           take 1000 ((''rate-limit:'' @ shop,
                       \<lparr>burstCount = 1, burstReset = now + 10000,
                        sustainedCount = 1, sustainedReset = now + 60000\<rparr>, now)
                      # rateLimitCache st)\<rparr>)"
proof -
  have "\<not> 1 > dmul exact_arith sl 0.4" using limits(3) by (simp add: exact_arith_def)
  from rateLimit_new_shop[OF absent limits(1,2) this, of now]
  show ?thesis by (simp add: exact_arith_def)
qed

subsection \<open>Calls on the concrete states\<close>

lemmas lru_eval = lru_get_def lru_stale_def lru_mutate_def lru_remove_def lru_set_def lru_has_def
  loaded_bucket_def live_entry_def window_resets_def stored_bucket_def exact_arith_def

lemma busy_rejected:
  "rateLimit exact_arith ''shop'' 100 40 1700000006000 busy_state =
     (Inl \<lparr>body = ''Too Many Requests (burst limit)'', status = 429,
           headers =
             [(''Retry-After'', Seconds 4),
              (''X-RateLimit-Limit'', PerWindow 40 ''10s''),
              (''X-RateLimit-Remaining'', Text ''0''),
              (''X-RateLimit-Reset'', IsoDate 1700000010000)]\<rparr>,
      busy_state\<lparr>logged := [RateLimitExceeded ''shop'' ''burst'' ''burst-limit'']\<rparr>)"
  by (simp add: rateLimit_unfold busy_state_def lru_eval Let_def)

lemma busy_admitted:
  "rateLimit exact_arith ''shop'' 100 40 1700000010000 busy_state =
     (Inr \<lparr>remaining = 59, reset = 1700000060000, burst = False\<rparr>,
      \<lparr>rateLimitCache =
         [(''rate-limit:shop'',
           \<lparr>burstCount = 1, burstReset = 1700000020000,
            sustainedCount = 41, sustainedReset = 1700000060000\<rparr>,
           1700000010000)],
       highUsageLog = [(''shop'', 41, 1700000010000)],
       logged = [HighUsage ''shop'' 41 100]\<rparr>)"
  by (simp add: rateLimit_unfold busy_state_def lru_eval Let_def)

lemma busy_rejected_minimal:
  "rateLimit_minimal exact_arith ''shop'' 100 40 1700000006000 (rateLimitCache busy_state) =
     (Inl \<lparr>body = ''Too Many Requests'', status = 429, headers = []\<rparr>, rateLimitCache busy_state)"
  by (simp add: rateLimit_minimal_unfold busy_state_def lru_eval Let_def)

lemma two_calls:
  "run_calls exact_arith ''shop'' [(1700000000000, 100, 40), (1700000009000, 100, 40)] initial_state [] =
     (\<lparr>rateLimitCache =
         [(''rate-limit:shop'',
           \<lparr>burstCount = 2, burstReset = 1700000010000,
            sustainedCount = 2, sustainedReset = 1700000060000\<rparr>,
           1700000009000)],
       highUsageLog = [], logged = []\<rparr>,
      [1700000000000, 1700000009000])"
  by (simp add: rateLimit_unfold initial_state_def lru_eval fresh_bucket_def Let_def)

lemma three_calls:
  "run_calls exact_arith ''shop'' [(1700000000000, 100, 40), (1700000009000, 100, 40), (1700000010500, 100, 40)]
       initial_state [] =
     (\<lparr>rateLimitCache =
         [(''rate-limit:shop'',
           \<lparr>burstCount = 1, burstReset = 1700000020500,
            sustainedCount = 3, sustainedReset = 1700000060000\<rparr>,
           1700000010500)],
       highUsageLog = [], logged = []\<rparr>,
      [1700000000000, 1700000009000, 1700000010500])"
  by (simp add: rateLimit_unfold initial_state_def lru_eval fresh_bucket_def Let_def)

lemma third_call:
  "rateLimit exact_arith ''shop'' 100 40 1700000010500
     \<lparr>rateLimitCache =
         [(''rate-limit:shop'',
           \<lparr>burstCount = 2, burstReset = 1700000010000,
            sustainedCount = 2, sustainedReset = 1700000060000\<rparr>,
           1700000009000)],
       highUsageLog = [], logged = []\<rparr> =
     (Inr \<lparr>remaining = 97, reset = 1700000060000, burst = False\<rparr>,
      \<lparr>rateLimitCache =
         [(''rate-limit:shop'',
           \<lparr>burstCount = 1, burstReset = 1700000020500,
            sustainedCount = 3, sustainedReset = 1700000060000\<rparr>,
           1700000010500)],
       highUsageLog = [], logged = []\<rparr>)"
  by (simp add: rateLimit_unfold lru_eval Let_def)

lemma shared_admitted:
  "rateLimit exact_arith ''shop'' 100 40 1700000010000 shared_state =
     (Inr \<lparr>remaining = 59, reset = 1700000060000, burst = False\<rparr>,
      \<lparr>rateLimitCache =
         [(''rate-limit:shop'',
           \<lparr>burstCount = 1, burstReset = 1700000020000,
            sustainedCount = 41, sustainedReset = 1700000060000\<rparr>,
           1700000010000),
          (''rate-limit-ip:203.0.113.7'',
           \<lparr>burstCount = 0, burstReset = 1700000004000,
            sustainedCount = 3, sustainedReset = 1700000064000\<rparr>,
           1700000004500)],
       highUsageLog = [(''shop'', 41, 1700000010000)],
       logged = [HighUsage ''shop'' 41 100]\<rparr>)"
  by (simp add: rateLimit_unfold shared_state_def lru_eval Let_def)

lemma shop_name_inj: "shop_name m = shop_name n \<longleftrightarrow> m = n"
proof
  assume "shop_name m = shop_name n"
  then have "length (shop_name m) = length (shop_name n)" by simp
  then show "m = n" by (simp add: shop_name_def)
qed simp

lemma map_of_first_requests:
  "map_of (map first_request ns) (''rate-limit:'' @ shop_name n)
     = (if n \<in> set ns then Some (snd (first_request n)) else None)"
  by (induction ns) (auto simp: first_request_def shop_name_inj)

lemma map_of_first_requests_new:
  "map_of (map first_request ns) (''rate-limit:'' @ ''new-shop'') = None"
  by (induction ns) (auto simp: first_request_def shop_name_def)

lemma thousand_calls_Suc:
  "thousand_calls (Suc m) =
     snd (rateLimit exact_arith (shop_name m) 100 40 (1700000000000 + int m) (thousand_calls m))"
  unfolding thousand_calls_def by simp

lemma thousand_calls_cache:
  "m \<le> 1000 \<Longrightarrow>
   thousand_calls m =
     \<lparr>rateLimitCache = map first_request (rev [0 ..< m]), highUsageLog = [], logged = []\<rparr>"
proof (induction m)
  case 0
  then show ?case by (simp add: thousand_calls_def initial_state_def)
next
  case (Suc m)
  define c where "c = map first_request (rev [0 ..< m])"
  let ?st = "\<lparr>rateLimitCache = c, highUsageLog = [], logged = []\<rparr>"
  have prev: "thousand_calls m = ?st" using Suc by (simp add: c_def)
  have "map_of c (''rate-limit:'' @ shop_name m) = None"
    unfolding c_def by (subst map_of_first_requests) simp
  then have absent: "map_of (rateLimitCache ?st) (''rate-limit:'' @ shop_name m) = None"
    by (simp only: limiter_state.simps)
  have len: "length c = m" by (simp add: c_def)
  have "rateLimit exact_arith (shop_name m) 100 40 (1700000000000 + int m) ?st =
     (Inr \<lparr>remaining = 100 - 1, reset = 1700000000000 + int m + 60000, burst = ((1::real) > 40 * 0.7)\<rparr>,
      ?st\<lparr>rateLimitCache :=
           take 1000 ((''rate-limit:'' @ shop_name m,
                       \<lparr>burstCount = 1, burstReset = 1700000000000 + int m + 10000,
                        sustainedCount = 1, sustainedReset = 1700000000000 + int m + 60000\<rparr>,
                       1700000000000 + int m)
                      # rateLimitCache ?st)\<rparr>)"
    by (rule rateLimit_new_shop_exact[OF absent]) simp_all
  then have "snd (rateLimit exact_arith (shop_name m) 100 40 (1700000000000 + int m) ?st)
      = ?st\<lparr>rateLimitCache := take 1000 (first_request m # c)\<rparr>"
    by (simp only: snd_conv first_request_def limiter_state.simps)
  moreover have "take 1000 (first_request m # c) = first_request m # c"
    using Suc.prems len by simp
  moreover have "map first_request (rev [0 ..< Suc m]) = first_request m # c"
    by (simp add: c_def)
  ultimately show ?case
    unfolding thousand_calls_Suc prev by simp
qed

lemma full_state_reached: "thousand_calls 1000 = full_state"
  unfolding full_state_def by (rule thousand_calls_cache) simp

lemma evicted_from_full:
  assumes "fst e \<noteq> ''rate-limit:'' @ shop_name 0"
  shows "map_of (take (Suc m) (e # map first_request (rev [0 ..< Suc m]))) (''rate-limit:'' @ shop_name 0) = None"
proof -
  have "[0 ..< Suc m] = 0 # [Suc 0 ..< Suc m]" by (simp only: upt_conv_Cons zero_less_Suc)
  then have "take m (rev [0 ..< Suc m]) = rev [Suc 0 ..< Suc m]"
    by (simp del: upt_Suc)
  then have "take (Suc m) (e # map first_request (rev [0 ..< Suc m]))
               = e # map first_request (rev [Suc 0 ..< Suc m])"
    by (simp only: take_Suc_Cons take_map)
  moreover have "map_of (map first_request (rev [Suc 0 ..< Suc m])) (''rate-limit:'' @ shop_name 0) = None"
    by (subst map_of_first_requests) simp
  ultimately show ?thesis
    using assms by (cases e) (simp del: upt_Suc)
qed

subsection \<open>Admission and rejection\<close>

text \<open>
  Claim C1.  Let \<open>b\<close> be the bucket the call works on after the window resets: the
  shop's cached bucket, or a new one when there is none or it has expired, with each
  counter whose reset time is \<open>\<le> now\<close> set to 0 and that reset time set to
  \<open>now + window\<close>.  The call throws exactly when \<open>burstCount b \<ge> burstLimit\<close> or
  \<open>sustainedCount b \<ge> sustainedLimit\<close>, and what it throws has status 429.  When it
  throws, no counter is incremented: the shop's stored bucket is \<open>b\<close> if the shop had a
  live entry and there is none otherwise, and the high-usage cache is unchanged.  When
  it returns, the stored bucket is \<open>b\<close> with both counters one higher.
\<close>

theorem rateLimit_throws_iff_over_limit:
  "(let key = ''rate-limit:'' @ shop;
        b = window_resets now (loaded_bucket now (rateLimitCache st) key);
        (r, st') = rateLimit ops shop sustainedLimit burstLimit now st
    in (isl r \<longleftrightarrow> of_int (burstCount b) \<ge> burstLimit \<or> of_int (sustainedCount b) \<ge> sustainedLimit)
       \<and> (isl r \<longrightarrow> status (projl r) = 429
             \<and> stored_bucket (rateLimitCache st') key
                 = map_option (\<lambda>_. b) (live_entry now (rateLimitCache st) key)
             \<and> highUsageLog st' = highUsageLog st)
       \<and> (\<not> isl r \<longrightarrow> stored_bucket (rateLimitCache st') key
             = Some (b\<lparr>burstCount := burstCount b + 1, sustainedCount := sustainedCount b + 1\<rparr>)))"
proof -
  define key where "key = ''rate-limit:'' @ shop"
  define b where "b = window_resets now (loaded_bucket now (rateLimitCache st) key)"
  define c where "c = lru_mutate key b (snd (lru_get 60000 now key (rateLimitCache st)))"
  obtain r st' where call: "rateLimit ops shop sustainedLimit burstLimit now st = (r, st')"
    by (cases "rateLimit ops shop sustainedLimit burstLimit now st")
  have decision: "isl r \<longleftrightarrow> of_int (burstCount b) \<ge> burstLimit \<or> of_int (sustainedCount b) \<ge> sustainedLimit"
    using rateLimit_isl[OF call] by (simp add: Let_def b_def key_def)
  have cache: "rateLimitCache st' =
      (if isl r then c
       else lru_set 1000 now key
              (b\<lparr>burstCount := burstCount b + 1, sustainedCount := sustainedCount b + 1\<rparr>) c)"
    using rateLimit_cache_after[OF call key_def] by (simp add: Let_def b_def c_def)
  have rejected: "status (projl r) = 429
      \<and> stored_bucket (rateLimitCache st') key = map_option (\<lambda>_. b) (live_entry now (rateLimitCache st) key)
      \<and> highUsageLog st' = highUsageLog st" if "isl r"
  proof -
    have "stored_bucket (rateLimitCache st') key = map_option (\<lambda>_. b) (live_entry now (rateLimitCache st) key)"
      using that cache by (simp add: c_def stored_after_reject)
    moreover have "status (projl r) = 429 \<and> highUsageLog st' = highUsageLog st"
      using that call by (auto simp: rateLimit_unfold Let_def split: if_splits)
    ultimately show ?thesis by simp
  qed
  have admitted: "stored_bucket (rateLimitCache st') key
      = Some (b\<lparr>burstCount := burstCount b + 1, sustainedCount := sustainedCount b + 1\<rparr>)"
    if "\<not> isl r"
    using that cache by (simp add: stored_after_admit)
  show ?thesis
    unfolding Let_def key_def[symmetric] b_def[symmetric] call prod.case
    using decision rejected admitted by blast
qed

text \<open>The theorem at a shop that has used up its burst allowance: a call in the same
  burst window is rejected and leaves the counters at 40 and 40; a call at the reset
  time of the burst window is admitted and leaves them at 1 and 41.\<close>

theorem rateLimit_throws_iff_over_limit_witness:
  "isl (fst (rateLimit exact_arith ''shop'' 100 40 1700000006000 busy_state))
   \<and> stored_bucket (rateLimitCache (snd (rateLimit exact_arith ''shop'' 100 40 1700000006000 busy_state))) ''rate-limit:shop''
       = Some \<lparr>burstCount = 40, burstReset = 1700000010000,
               sustainedCount = 40, sustainedReset = 1700000060000\<rparr>
   \<and> \<not> isl (fst (rateLimit exact_arith ''shop'' 100 40 1700000010000 busy_state))
   \<and> stored_bucket (rateLimitCache (snd (rateLimit exact_arith ''shop'' 100 40 1700000010000 busy_state))) ''rate-limit:shop''
       = Some \<lparr>burstCount = 1, burstReset = 1700000020000,
               sustainedCount = 41, sustainedReset = 1700000060000\<rparr>"
  using rateLimit_throws_iff_over_limit[of "''shop''" 1700000006000 busy_state exact_arith 100 40]
        rateLimit_throws_iff_over_limit[of "''shop''" 1700000010000 busy_state exact_arith 100 40]
  unfolding busy_rejected busy_admitted
  by (simp add: busy_state_def stored_bucket_def)

subsection \<open>The two definitions compared\<close>

text \<open>
  Claim C9 says that the two definitions differ only in logging and in the headers of
  the thrown response.  They differ in its body as well: for the shop that has used up
  its burst allowance the first definition throws \<^verbatim>\<open>Too Many Requests\<close> and the
  second \<^verbatim>\<open>Too Many Requests (burst limit)\<close>.
\<close>

theorem rateLimit_versions_differ_in_body:
  "map_sum body id (fst (rateLimit_minimal exact_arith ''shop'' 100 40 1700000006000 (rateLimitCache busy_state)))
     = Inl ''Too Many Requests''
   \<and> map_sum body id (fst (rateLimit exact_arith ''shop'' 100 40 1700000006000 busy_state))
     = Inl ''Too Many Requests (burst limit)''"
  unfolding busy_rejected busy_rejected_minimal by simp

text \<open>
  Claim C9, as amended: from the same cache, for the same shop, limits and time, the
  two definitions make the same decision, throw a response of the same status (429) or
  return the same \<^verbatim>\<open>{ remaining, reset, burst }\<close>, and leave the same cache behind.
  What differs is the log, the high-usage cache, the headers (the first definition
  sets none) and the body of the rejection for the burst limit.
\<close>

theorem rateLimit_versions_agree:
  "(let b = window_resets now (loaded_bucket now (rateLimitCache st) (''rate-limit:'' @ shop));
        (r1, c1) = rateLimit_minimal ops shop sustainedLimit burstLimit now (rateLimitCache st);
        (r2, st2) = rateLimit ops shop sustainedLimit burstLimit now st
    in map_sum status id r1 = map_sum status id r2
       \<and> c1 = rateLimitCache st2
       \<and> (case r1 of Inl resp \<Rightarrow> body resp = ''Too Many Requests'' \<and> headers resp = []
                     | Inr v \<Rightarrow> True)
       \<and> (case r2 of Inl resp \<Rightarrow> body resp = (if of_int (burstCount b) \<ge> burstLimit
                                                 then ''Too Many Requests (burst limit)''
                                                 else ''Too Many Requests'')
                     | Inr v \<Rightarrow> True))"
proof -
  define b where "b = window_resets now (loaded_bucket now (rateLimitCache st) (''rate-limit:'' @ shop))"
  consider (burst) "of_int (burstCount b) \<ge> burstLimit"
    | (sustained) "\<not> of_int (burstCount b) \<ge> burstLimit" "of_int (sustainedCount b) \<ge> sustainedLimit"
    | (admitted) "\<not> of_int (burstCount b) \<ge> burstLimit" "\<not> of_int (sustainedCount b) \<ge> sustainedLimit"
    by blast
  then show ?thesis
  proof cases
    case burst
    then show ?thesis
      unfolding rateLimit_unfold rateLimit_minimal_unfold Let_def b_def by simp
  next
    case sustained
    then show ?thesis
      unfolding rateLimit_unfold rateLimit_minimal_unfold Let_def b_def by simp
  next
    case admitted
    then show ?thesis
      unfolding rateLimit_unfold rateLimit_minimal_unfold Let_def b_def by simp
  qed
qed

text \<open>The theorem at the call that is admitted at the reset time of the burst window.\<close>

theorem rateLimit_versions_agree_witness:
  "fst (rateLimit_minimal exact_arith ''shop'' 100 40 1700000010000 (rateLimitCache busy_state))
     = Inr \<lparr>remaining = 59, reset = 1700000060000, burst = False\<rparr>
   \<and> fst (rateLimit exact_arith ''shop'' 100 40 1700000010000 busy_state)
     = Inr \<lparr>remaining = 59, reset = 1700000060000, burst = False\<rparr>
   \<and> snd (rateLimit_minimal exact_arith ''shop'' 100 40 1700000010000 (rateLimitCache busy_state))
     = rateLimitCache (snd (rateLimit exact_arith ''shop'' 100 40 1700000010000 busy_state))"
proof -
  have m: "rateLimit_minimal exact_arith ''shop'' 100 40 1700000010000 (rateLimitCache busy_state) =
     (Inr \<lparr>remaining = 59, reset = 1700000060000, burst = False\<rparr>,
      [(''rate-limit:shop'',
           \<lparr>burstCount = 1, burstReset = 1700000020000,
            sustainedCount = 41, sustainedReset = 1700000060000\<rparr>,
           1700000010000)])"
    by (simp add: rateLimit_minimal_unfold busy_state_def lru_eval Let_def)
  from rateLimit_versions_agree[where ops = exact_arith and shop = "''shop''" and sustainedLimit = 100 and burstLimit = 40
        and now = 1700000010000 and st = busy_state]
  show ?thesis
    unfolding busy_admitted m by simp
qed

subsection \<open>What the counters count\<close>

lemma window_count_snoc:
  "window_count rs w (adm @ [t]) = window_count rs w adm + (if rs - w \<le> t then 1 else 0)"
  by (simp add: window_count_def)

lemma window_count_zero:
  "list_all (\<lambda>t. t < rs - w) adm \<Longrightarrow> window_count rs w adm = 0"
  by (induction adm) (auto simp: window_count_def)

lemma list_all_mono': "list_all P xs \<Longrightarrow> (\<And>x. P x \<Longrightarrow> Q x) \<Longrightarrow> list_all Q xs"
  by (induction xs) auto

lemma run_inv_step:
  assumes inv: "run_inv key tlast (rateLimitCache st) adm"
    and le: "tlast \<le> now"
    and call: "rateLimit ops shop sl bl now st = (r, st')"
    and key: "key = ''rate-limit:'' @ shop"
  shows "run_inv key now (rateLimitCache st') (if isl r then adm else adm @ [now])"
proof -
  let ?key = key
  note after = rateLimit_key_after[OF call key, unfolded Let_def]
  consider (absent) "map_of (rateLimitCache st) ?key = None"
    | (stale) b start where "map_of (rateLimitCache st) ?key = Some (b, start)" "now - start > 60000"
    | (live) b start where "map_of (rateLimitCache st) ?key = Some (b, start)" "\<not> now - start > 60000"
    by (cases "map_of (rateLimitCache st) ?key") auto
  then show ?thesis
  proof cases
    case absent
    then have old: "list_all (\<lambda>t. t < now) adm"
      using inv le by (auto simp: run_inv_def elim!: list_all_mono')
    have L: "loaded_bucket now (rateLimitCache st) ?key = fresh_bucket now"
      using absent by (simp add: loaded_bucket_def live_entry_def)
    show ?thesis
    proof (cases "isl r")
      case True
      then show ?thesis using after absent old by (simp add: run_inv_def)
    next
      case False
      then show ?thesis using after old
        by (simp add: run_inv_def L window_resets_def fresh_bucket_def window_count_snoc
            window_count_zero list_all_mono'[OF old])
    qed
  next
    case stale
    then have "list_all (\<lambda>t. t \<le> start) adm"
      using inv by (simp add: run_inv_def)
    then have old: "list_all (\<lambda>t. t < now) adm"
      using stale(2) by (auto elim!: list_all_mono')
    have L: "loaded_bucket now (rateLimitCache st) ?key = fresh_bucket now"
      using stale by (simp add: loaded_bucket_def live_entry_def)
    show ?thesis
    proof (cases "isl r")
      case True
      then show ?thesis using after stale old by (simp add: run_inv_def)
    next
      case False
      then show ?thesis using after old
        by (simp add: run_inv_def L window_resets_def fresh_bucket_def window_count_snoc
            window_count_zero list_all_mono'[OF old])
    qed
  next
    case live
    have L: "loaded_bucket now (rateLimitCache st) ?key = b"
      using live by (simp add: loaded_bucket_def live_entry_def)
    from inv live have
      bc: "burstCount b = window_count (burstReset b) 10000 adm"
      and sc: "sustainedCount b = window_count (sustainedReset b) 60000 adm"
      and old: "list_all (\<lambda>t. t \<le> start) adm"
      and st: "start \<le> tlast"
      and bw: "tlast < burstReset b" "burstReset b - 10000 \<le> tlast"
      and sw: "tlast < sustainedReset b" "sustainedReset b - 60000 \<le> tlast"
      by (simp_all add: run_inv_def)
    let ?b = "window_resets now b"
    have old_now: "list_all (\<lambda>t. t \<le> now) adm"
      using old st le by (auto elim!: list_all_mono')
    have bz: "burstReset b \<le> now \<Longrightarrow> window_count (now + 10000) 10000 adm = 0"
      using old st bw by (intro window_count_zero) (auto elim!: list_all_mono')
    have sz: "sustainedReset b \<le> now \<Longrightarrow> window_count (now + 60000) 60000 adm = 0"
      using old st sw by (intro window_count_zero) (auto elim!: list_all_mono')
    have B: "burstCount ?b = window_count (burstReset ?b) 10000 adm"
      "now < burstReset ?b" "burstReset ?b - 10000 \<le> now"
      using bc bz bw le by (auto simp: window_resets_def)
    have S: "sustainedCount ?b = window_count (sustainedReset ?b) 60000 adm"
      "now < sustainedReset ?b" "sustainedReset ?b - 60000 \<le> now"
      using sc sz sw le by (auto simp: window_resets_def)
    show ?thesis
    proof (cases "isl r")
      case True
      then show ?thesis using after live L B S old st le by (simp add: run_inv_def)
    next
      case False
      then show ?thesis using after live L B S old_now
        by (simp add: run_inv_def window_count_snoc)
    qed
  qed
qed

text \<open>One call, seen as a step of the fixed-window scheme on the windows that the
  shop's cache entry holds.\<close>

lemma loaded_windows:
  assumes inv: "run_inv key tlast c adm" and le: "tlast \<le> now"
  shows "burstReset (window_resets now (loaded_bucket now c key))
           = window_start 10000 now
               (map_option burstStart (live_windows now (map_option windows_of (map_of c key)))) + 10000"
    and "sustainedReset (window_resets now (loaded_bucket now c key))
           = window_start 60000 now
               (map_option sustainedStart (live_windows now (map_option windows_of (map_of c key)))) + 60000"
    and "burstCount (window_resets now (loaded_bucket now c key))
           = window_count (burstReset (window_resets now (loaded_bucket now c key))) 10000 adm"
    and "sustainedCount (window_resets now (loaded_bucket now c key))
           = window_count (sustainedReset (window_resets now (loaded_bucket now c key))) 60000 adm"
proof -
  consider (absent) "map_of c key = None"
    | (stale) b start where "map_of c key = Some (b, start)" "now - start > 60000"
    | (live) b start where "map_of c key = Some (b, start)" "\<not> now - start > 60000"
    by (cases "map_of c key") auto
  then have "burstReset (window_resets now (loaded_bucket now c key))
           = window_start 10000 now
               (map_option burstStart (live_windows now (map_option windows_of (map_of c key)))) + 10000
     \<and> sustainedReset (window_resets now (loaded_bucket now c key))
           = window_start 60000 now
               (map_option sustainedStart (live_windows now (map_option windows_of (map_of c key)))) + 60000
     \<and> burstCount (window_resets now (loaded_bucket now c key))
           = window_count (burstReset (window_resets now (loaded_bucket now c key))) 10000 adm
     \<and> sustainedCount (window_resets now (loaded_bucket now c key))
           = window_count (sustainedReset (window_resets now (loaded_bucket now c key))) 60000 adm"
  proof cases
    case absent
    then have old: "list_all (\<lambda>t. t < now) adm"
      using inv le by (auto simp: run_inv_def elim!: list_all_mono')
    have L: "loaded_bucket now c key = fresh_bucket now"
      using absent by (simp add: loaded_bucket_def live_entry_def)
    show ?thesis
      using absent old
      by (simp add: L window_resets_def fresh_bucket_def live_windows_def window_start_def
          window_count_zero)
  next
    case stale
    then have "list_all (\<lambda>t. t \<le> start) adm"
      using inv by (simp add: run_inv_def)
    then have old: "list_all (\<lambda>t. t < now) adm"
      using stale(2) by (auto elim!: list_all_mono')
    have L: "loaded_bucket now c key = fresh_bucket now"
      using stale by (simp add: loaded_bucket_def live_entry_def)
    show ?thesis
      using stale old
      by (simp add: L window_resets_def fresh_bucket_def live_windows_def window_start_def
          windows_of_def window_count_zero)
  next
    case live
    have L: "loaded_bucket now c key = b"
      using live by (simp add: loaded_bucket_def live_entry_def)
    from inv live have
      bc: "burstCount b = window_count (burstReset b) 10000 adm"
      and sc: "sustainedCount b = window_count (sustainedReset b) 60000 adm"
      and old: "list_all (\<lambda>t. t \<le> start) adm"
      and st: "start \<le> tlast"
      and bw: "tlast < burstReset b" "burstReset b - 10000 \<le> tlast"
      and sw: "tlast < sustainedReset b" "sustainedReset b - 60000 \<le> tlast"
      by (simp_all add: run_inv_def)
    have bz: "burstReset b \<le> now \<Longrightarrow> window_count (now + 10000) 10000 adm = 0"
      using old st bw by (intro window_count_zero) (auto elim!: list_all_mono')
    have sz: "sustainedReset b \<le> now \<Longrightarrow> window_count (now + 60000) 60000 adm = 0"
      using old st sw by (intro window_count_zero) (auto elim!: list_all_mono')
    show ?thesis
      using live bc sc bz sz
      by (simp add: L window_resets_def live_windows_def window_start_def windows_of_def)
  qed
  then show "burstReset (window_resets now (loaded_bucket now c key))
           = window_start 10000 now
               (map_option burstStart (live_windows now (map_option windows_of (map_of c key)))) + 10000"
    and "sustainedReset (window_resets now (loaded_bucket now c key))
           = window_start 60000 now
               (map_option sustainedStart (live_windows now (map_option windows_of (map_of c key)))) + 60000"
    and "burstCount (window_resets now (loaded_bucket now c key))
           = window_count (burstReset (window_resets now (loaded_bucket now c key))) 10000 adm"
    and "sustainedCount (window_resets now (loaded_bucket now c key))
           = window_count (sustainedReset (window_resets now (loaded_bucket now c key))) 60000 adm"
    by simp_all
qed

lemma fixed_window_step_refined:
  assumes inv: "run_inv key tlast (rateLimitCache st) adm"
    and le: "tlast \<le> now"
    and call: "rateLimit ops shop sl bl now st = (r, st')"
    and key: "key = ''rate-limit:'' @ shop"
  shows "fixed_window_step (now, sl, bl) (map_option windows_of (map_of (rateLimitCache st) key), adm)
           = (map_option windows_of (map_of (rateLimitCache st') key),
              if isl r then adm else adm @ [now])"
proof -
  define b where "b = window_resets now (loaded_bucket now (rateLimitCache st) key)"
  define kept where "kept = map_option windows_of (map_of (rateLimitCache st) key)"
  define bstart where "bstart = window_start 10000 now (map_option burstStart (live_windows now kept))"
  define sstart where "sstart = window_start 60000 now (map_option sustainedStart (live_windows now kept))"
  note W = loaded_windows[OF inv le, folded b_def kept_def, folded bstart_def sstart_def]
  have after: "map_of (rateLimitCache st') key =
      (if isl r then
           (case map_of (rateLimitCache st) key of
              None \<Rightarrow> None
            | Some (v, start) \<Rightarrow> if now - start > 60000 then None else Some (b, start))
         else Some (b\<lparr>burstCount := burstCount b + 1, sustainedCount := sustainedCount b + 1\<rparr>, now))"
    unfolding b_def using rateLimit_key_after[OF call key, unfolded Let_def] .
  have decision: "isl r \<longleftrightarrow> of_int (burstCount b) \<ge> bl \<or> of_int (sustainedCount b) \<ge> sl"
    using rateLimit_isl[OF call] by (simp add: Let_def b_def key)
  have counts: "window_count (bstart + 10000) 10000 adm = burstCount b"
    "window_count (sstart + 60000) 60000 adm = sustainedCount b"
    using W by simp_all
  have step: "fixed_window_step (now, sl, bl) (kept, adm) =
      (if isl r
       then (map_option (\<lambda>w. w\<lparr>burstStart := bstart, sustainedStart := sstart\<rparr>) (live_windows now kept), adm)
       else (Some \<lparr>burstStart = bstart, sustainedStart = sstart, lastAdmitted = now\<rparr>, adm @ [now]))"
    unfolding fixed_window_step_def prod.case Let_def bstart_def[symmetric] sstart_def[symmetric] counts
      decision
    by simp
  have rejected: "map_option (\<lambda>w. w\<lparr>burstStart := bstart, sustainedStart := sstart\<rparr>) (live_windows now kept)
      = map_option windows_of
          (case map_of (rateLimitCache st) key of
              None \<Rightarrow> None
            | Some (v, start) \<Rightarrow> if now - start > 60000 then None else Some (b, start))"
    using W(1,2) by (auto simp: kept_def live_windows_def windows_of_def split: option.splits)
  have admitted: "\<lparr>burstStart = bstart, sustainedStart = sstart, lastAdmitted = now\<rparr>
      = windows_of (b\<lparr>burstCount := burstCount b + 1, sustainedCount := sustainedCount b + 1\<rparr>, now)"
    using W(1,2) by (simp add: windows_of_def)
  show ?thesis
    unfolding kept_def[symmetric] step after
    by (simp add: rejected admitted)
qed

lemma entry_of_windows_of:
  assumes "run_inv key t c adm"
  shows "map_of c key = map_option (entry_of adm) (map_option windows_of (map_of c key))"
proof (cases "map_of c key")
  case None
  then show ?thesis by simp
next
  case (Some e)
  obtain b start where e: "e = (b, start)" by (cases e)
  from assms Some e have "burstCount b = window_count (burstReset b) 10000 adm"
    "sustainedCount b = window_count (sustainedReset b) 60000 adm"
    by (simp_all add: run_inv_def)
  then have "entry_of adm (windows_of (b, start)) = (b, start)"
    by (simp add: entry_of_def windows_of_def)
  with Some e show ?thesis by simp
qed

lemma windows_current:
  assumes "run_inv key t c adm" and "map_option windows_of (map_of c key) = Some w"
  shows "burstStart w \<le> t \<and> t < burstStart w + 10000
       \<and> sustainedStart w \<le> t \<and> t < sustainedStart w + 60000
       \<and> lastAdmitted w \<le> t \<and> list_all (\<lambda>a. a \<le> lastAdmitted w) adm"
proof -
  from assms(2) obtain b start where e: "map_of c key = Some (b, start)" and w: "w = windows_of (b, start)"
    by (cases "map_of c key") auto
  from assms(1) e show ?thesis
    unfolding w by (simp add: run_inv_def windows_of_def)
qed

lemma run_calls_refined:
  assumes "run_inv (''rate-limit:'' @ shop) tlast (rateLimitCache st) adm"
    and "sorted (tlast # map fst calls)"
    and "run_calls ops shop calls st adm = (st', adm')"
  shows "fixed_window_run calls (map_option windows_of (map_of (rateLimitCache st) (''rate-limit:'' @ shop)), adm)
           = (map_option windows_of (map_of (rateLimitCache st') (''rate-limit:'' @ shop)), adm')
         \<and> run_inv (''rate-limit:'' @ shop) (last (tlast # map fst calls)) (rateLimitCache st') adm'"
  using assms
proof (induction calls arbitrary: tlast st adm)
  case Nil
  then show ?case by (simp add: fixed_window_run_def)
next
  case (Cons c calls)
  obtain now sl bl where c: "c = (now, sl, bl)" by (cases c)
  obtain r st1 where call: "rateLimit ops shop sl bl now st = (r, st1)"
    by (cases "rateLimit ops shop sl bl now st")
  from Cons.prems(2) c have le: "tlast \<le> now" and sorted': "sorted (now # map fst calls)"
    by auto
  note inv = run_inv_step[OF Cons.prems(1) le call refl]
  note step = fixed_window_step_refined[OF Cons.prems(1) le call refl]
  have "run_calls ops shop calls st1 (if isl r then adm else adm @ [now]) = (st', adm')"
    using Cons.prems(3) c call by (cases r) auto
  from Cons.IH[OF inv sorted' this] show ?case
    unfolding c fixed_window_run_def using step by simp
qed

text \<open>
  Claim C2 says that each counter is the number of admitted requests of the trailing
  window.  It is not: after requests admitted at 0 s and 9 s, the burst counter is 2;
  at 10.5 s the trailing 10 s hold one admitted request, but the call at 10.5 s starts
  a new window and leaves the counter at 1, its own request.
\<close>

theorem counters_not_sliding:
  "(case run_calls exact_arith ''shop'' [(1700000000000, 100, 40), (1700000009000, 100, 40)] initial_state [] of
      (st, admitted) \<Rightarrow>
        map_option burstCount (stored_bucket (rateLimitCache st) ''rate-limit:shop'') = Some 2
        \<and> trailing_count 10000 1700000010500 admitted = 1
        \<and> map_option burstCount
             (stored_bucket (rateLimitCache (snd (rateLimit exact_arith ''shop'' 100 40 1700000010500 st)))
                ''rate-limit:shop'') = Some 1)"
  unfolding two_calls prod.case third_call
  by (simp add: stored_bucket_def trailing_count_def)

text \<open>
  Claim C2, as amended: the counters are those of fixed windows.  In a run of calls for
  one shop, at non-decreasing times, from a state in which the shop has no entry, the
  calls are admitted and rejected as the fixed-window scheme admits and rejects them,
  and the shop's cache entry is the entry of the windows that the scheme keeps: its
  burst counter is the number of requests admitted since the start of the burst
  window, \<open>burstReset - 10 s\<close>, and its sustained counter the number admitted since
  \<open>sustainedReset - 60 s\<close>.  A call starts a window anew at its own time when the shop
  has no live entry (none yet, or the last admitted request is more than 60 s old) or
  the call is a window length or more after the start of the current window, and
  continues the current window otherwise; so the windows of a stored entry contain the
  time of the last call, and an admitted request stops counting when its window is
  replaced, however recent it is.
\<close>

theorem counters_count_fixed_windows:
  assumes "map_of (rateLimitCache st) (''rate-limit:'' @ shop) = None"
    and "sorted (map fst calls)"
    and "run_calls ops shop calls st [] = (st', admitted)"
  shows "fixed_window_run calls (None, [])
           = (map_option windows_of (map_of (rateLimitCache st') (''rate-limit:'' @ shop)), admitted)
       \<and> map_of (rateLimitCache st') (''rate-limit:'' @ shop)
           = map_option (entry_of admitted) (fst (fixed_window_run calls (None, [])))
       \<and> (\<forall>w. fst (fixed_window_run calls (None, [])) = Some w \<longrightarrow>
             calls \<noteq> []
             \<and> burstStart w \<le> fst (last calls) \<and> fst (last calls) < burstStart w + 10000
             \<and> sustainedStart w \<le> fst (last calls) \<and> fst (last calls) < sustainedStart w + 60000
             \<and> lastAdmitted w \<le> fst (last calls)
             \<and> list_all (\<lambda>t. t \<le> lastAdmitted w) admitted)"
proof (cases calls)
  case Nil
  with assms show ?thesis by (simp add: fixed_window_run_def)
next
  case (Cons c cs)
  let ?key = "''rate-limit:'' @ shop"
  have inv0: "run_inv ?key (fst c) (rateLimitCache st) []"
    using assms(1) by (simp add: run_inv_def)
  have sorted0: "sorted (fst c # map fst calls)" using assms(2) Cons by simp
  have last: "last (fst c # map fst calls) = fst (last calls)"
    using Cons by (simp add: last_map)
  from run_calls_refined[OF inv0 sorted0 assms(3)] assms(1)
  have run: "fixed_window_run calls (None, [])
               = (map_option windows_of (map_of (rateLimitCache st') ?key), admitted)"
    and inv: "run_inv ?key (fst (last calls)) (rateLimitCache st') admitted"
    unfolding last by simp_all
  have kept: "fst (fixed_window_run calls (None, [])) = map_option windows_of (map_of (rateLimitCache st') ?key)"
    unfolding run by simp
  have entry: "map_of (rateLimitCache st') ?key
      = map_option (entry_of admitted) (fst (fixed_window_run calls (None, [])))"
    unfolding kept by (rule entry_of_windows_of[OF inv])
  have current: "calls \<noteq> []
             \<and> burstStart w \<le> fst (last calls) \<and> fst (last calls) < burstStart w + 10000
             \<and> sustainedStart w \<le> fst (last calls) \<and> fst (last calls) < sustainedStart w + 60000
             \<and> lastAdmitted w \<le> fst (last calls)
             \<and> list_all (\<lambda>t. t \<le> lastAdmitted w) admitted"
    if "fst (fixed_window_run calls (None, [])) = Some w" for w
    using windows_current[OF inv that[unfolded kept]] Cons by simp
  from run entry current show ?thesis by blast
qed

text \<open>The theorem at the run of the three calls at 0 s, 9 s and 10.5 s: the third call
  starts a new burst window and continues the sustained window.\<close>

theorem counters_count_fixed_windows_witness:
  "(case run_calls exact_arith ''shop''
           [(1700000000000, 100, 40), (1700000009000, 100, 40), (1700000010500, 100, 40)]
           initial_state [] of
      (st, admitted) \<Rightarrow>
        admitted = [1700000000000, 1700000009000, 1700000010500]
        \<and> fixed_window_run
            [(1700000000000, 100, 40), (1700000009000, 100, 40), (1700000010500, 100, 40)] (None, [])
          = (Some \<lparr>burstStart = 1700000010500, sustainedStart = 1700000000000,
                   lastAdmitted = 1700000010500\<rparr>, admitted)
        \<and> map_of (rateLimitCache st) ''rate-limit:shop''
          = Some (\<lparr>burstCount = 1, burstReset = 1700000020500,
                   sustainedCount = 3, sustainedReset = 1700000060000\<rparr>, 1700000010500))"
proof -
  have "map_of (rateLimitCache initial_state) (''rate-limit:'' @ ''shop'') = None"
    by (simp add: initial_state_def)
  from counters_count_fixed_windows[OF this _ three_calls]
  show ?thesis
    unfolding three_calls by (simp add: windows_of_def)
qed

subsection \<open>What a call touches\<close>

text \<open>
  Claim C7 says that the bucket stored under any other key is unchanged by a call.
  The cache holds at most 1000 entries: in the state that the first requests of a
  thousand shops leave behind, the first request of one more shop evicts the least
  recently used entry, the bucket of the first of the thousand.
\<close>

theorem rateLimit_evicts_other_shop:
  "thousand_calls 1000 = full_state
   \<and> stored_bucket (rateLimitCache full_state) (''rate-limit:'' @ shop_name 0)
       = Some \<lparr>burstCount = 1, burstReset = 1700000010000,
               sustainedCount = 1, sustainedReset = 1700000060000\<rparr>
   \<and> \<not> isl (fst (rateLimit exact_arith ''new-shop'' 100 40 1700000002000 full_state))
   \<and> stored_bucket (rateLimitCache (snd (rateLimit exact_arith ''new-shop'' 100 40 1700000002000 full_state)))
        (''rate-limit:'' @ shop_name 0) = None"
proof -
  define c where "c = map first_request (rev [0 ..< 1000])"
  have fs: "full_state = \<lparr>rateLimitCache = c, highUsageLog = [], logged = []\<rparr>"
    by (simp only: full_state_def c_def)
  have "map_of c (''rate-limit:'' @ shop_name 0) = Some (snd (first_request 0))"
    unfolding c_def by (subst map_of_first_requests) simp
  then have before: "stored_bucket (rateLimitCache full_state) (''rate-limit:'' @ shop_name 0)
       = Some \<lparr>burstCount = 1, burstReset = 1700000010000,
               sustainedCount = 1, sustainedReset = 1700000060000\<rparr>"
    by (simp add: fs stored_bucket_def first_request_def)
  have "map_of c (''rate-limit:'' @ ''new-shop'') = None"
    unfolding c_def by (rule map_of_first_requests_new)
  then have absent: "map_of (rateLimitCache full_state) (''rate-limit:'' @ ''new-shop'') = None"
    by (simp only: fs limiter_state.simps)
  have call: "rateLimit exact_arith ''new-shop'' 100 40 1700000002000 full_state =
     (Inr \<lparr>remaining = 100 - 1, reset = 1700000002000 + 60000, burst = ((1::real) > 40 * 0.7)\<rparr>,
      full_state\<lparr>rateLimitCache :=
           take 1000 ((''rate-limit:'' @ ''new-shop'',
                       \<lparr>burstCount = 1, burstReset = 1700000002000 + 10000,
                        sustainedCount = 1, sustainedReset = 1700000002000 + 60000\<rparr>,
                       1700000002000)
                      # rateLimitCache full_state)\<rparr>)"
    by (rule rateLimit_new_shop_exact[OF absent]) simp_all
  have "(1000::nat) = Suc 999" by simp
  then have "map_of (take 1000 ((''rate-limit:'' @ ''new-shop'',
                       \<lparr>burstCount = 1, burstReset = 1700000002000 + 10000,
                        sustainedCount = 1, sustainedReset = 1700000002000 + 60000\<rparr>,
                       1700000002000) # c)) (''rate-limit:'' @ shop_name 0) = None"
    unfolding c_def
    using evicted_from_full[of "(''rate-limit:'' @ ''new-shop'',
                       \<lparr>burstCount = 1, burstReset = 1700000002000 + 10000,
                        sustainedCount = 1, sustainedReset = 1700000002000 + 60000\<rparr>,
                       1700000002000)" 999]
    by (simp only: fst_conv) (simp add: shop_name_def)
  then have after: "stored_bucket (rateLimitCache (snd (rateLimit exact_arith ''new-shop'' 100 40 1700000002000 full_state)))
        (''rate-limit:'' @ shop_name 0) = None"
    unfolding call by (simp only: snd_conv stored_bucket_def fs limiter_state.simps limiter_state.update_convs option.map)
  show ?thesis
    using full_state_reached before after unfolding call by simp
qed

text \<open>
  Claim C7, as amended.  For a call for \<open>shop\<close> and any key \<open>k\<close> other than
  \<open>'rate-limit:' + shop\<close>: the entry of \<open>k\<close> is unchanged when the call throws, when
  the cache holds fewer than 1000 entries, or when the shop has an entry already;
  in every case it is unchanged or gone (evicted).  The high-usage cache changes, if
  at all, under the key \<open>shop\<close>, and another key's entry is unchanged or gone.  What
  the call returns or throws depends on the state only through the entry of
  \<open>'rate-limit:' + shop\<close>.  An IP key, a cron key and the key of another shop are never
  the key of \<open>shop\<close>.
\<close>

theorem rateLimit_frame:
  assumes call: "rateLimit ops shop sustainedLimit burstLimit now st = (r, st')"
    and other: "k \<noteq> ''rate-limit:'' @ shop"
  shows "(isl r \<or> length (rateLimitCache st) < 1000
            \<or> (length (rateLimitCache st) \<le> 1000 \<and> map_of (rateLimitCache st) (''rate-limit:'' @ shop) \<noteq> None)
          \<longrightarrow> map_of (rateLimitCache st') k = map_of (rateLimitCache st) k)
       \<and> (map_of (rateLimitCache st') k = map_of (rateLimitCache st) k \<or> map_of (rateLimitCache st') k = None)
       \<and> (s \<noteq> shop \<longrightarrow> map_of (highUsageLog st') s = map_of (highUsageLog st) s
                          \<or> map_of (highUsageLog st') s = None)
       \<and> (map_of (rateLimitCache st2) (''rate-limit:'' @ shop) = map_of (rateLimitCache st) (''rate-limit:'' @ shop)
            \<longrightarrow> fst (rateLimit ops shop sustainedLimit burstLimit now st2) = r)
       \<and> ''rate-limit-ip:'' @ ip \<noteq> ''rate-limit:'' @ shop
       \<and> ''rate-limit-cron:'' @ endpoint \<noteq> ''rate-limit:'' @ shop
       \<and> (shop2 \<noteq> shop \<longrightarrow> ''rate-limit:'' @ shop2 \<noteq> ''rate-limit:'' @ shop)"
proof -
  define key where "key = ''rate-limit:'' @ shop"
  define b where "b = window_resets now (loaded_bucket now (rateLimitCache st) key)"
  define c where "c = lru_mutate key b (snd (lru_get 60000 now key (rateLimitCache st)))"
  define b' where "b' = b\<lparr>burstCount := burstCount b + 1, sustainedCount := sustainedCount b + 1\<rparr>"
  have k: "k \<noteq> key" using other by (simp add: key_def)
  have after: "rateLimitCache st' = (if isl r then c else lru_set 1000 now key b' c)"
    using rateLimit_cache_after[OF call key_def] by (simp add: Let_def b_def c_def b'_def)
  have c_k: "map_of c k = map_of (rateLimitCache st) k"
    unfolding c_def using k by (rule touched_cache_other)
  have c_len: "length (lru_remove key c) = length (lru_remove key (rateLimitCache st))"
    unfolding c_def by (rule touched_cache_length)
  have A: "map_of (rateLimitCache st') k = map_of (rateLimitCache st) k"
    if "isl r \<or> length (rateLimitCache st) < 1000
            \<or> (length (rateLimitCache st) \<le> 1000 \<and> map_of (rateLimitCache st) key \<noteq> None)"
  proof (cases "isl r")
    case True
    then show ?thesis using after c_k by simp
  next
    case False
    with that have "length (lru_remove key (rateLimitCache st)) < 1000"
      using length_lru_remove[of key "rateLimitCache st"]
        length_lru_remove_present[of "rateLimitCache st" key] by auto
    then have "length (lru_remove key c) < 1000" using c_len by simp
    from map_of_lru_set_other(2)[OF k this] False after c_k show ?thesis by simp
  qed
  have B: "map_of (rateLimitCache st') k = map_of (rateLimitCache st) k \<or> map_of (rateLimitCache st') k = None"
    using map_of_lru_set_other(1)[OF k, of 1000 now b' c] after c_k by (cases "isl r") auto
  have C: "map_of (highUsageLog st') s = map_of (highUsageLog st) s \<or> map_of (highUsageLog st') s = None"
    if "s \<noteq> shop"
  proof -
    from rateLimit_usage_after[OF call] consider "highUsageLog st' = highUsageLog st"
      | v where "highUsageLog st' = lru_set 100 now shop v (highUsageLog st)" by blast
    then show ?thesis
    proof cases
      case 1
      then show ?thesis by simp
    next
      case 2
      then show ?thesis
        using map_of_lru_set_other(1)[OF that, of 100 now v "highUsageLog st"] by simp
    qed
  qed
  have D: "fst (rateLimit ops shop sustainedLimit burstLimit now st2) = r"
    if "map_of (rateLimitCache st2) key = map_of (rateLimitCache st) key"
    using rateLimit_result_reads_key[OF that[unfolded key_def]] call by simp
  show ?thesis
    using A B C D unfolding key_def by simp
qed

text \<open>The theorem at a call for a shop in a cache that also holds the entry of an
  address: the call is admitted and the address's entry is the same before and after.\<close>

theorem rateLimit_frame_witness:
  "\<not> isl (fst (rateLimit exact_arith ''shop'' 100 40 1700000010000 shared_state))
   \<and> map_of (rateLimitCache (snd (rateLimit exact_arith ''shop'' 100 40 1700000010000 shared_state)))
        ''rate-limit-ip:203.0.113.7''
       = Some (\<lparr>burstCount = 0, burstReset = 1700000004000,
                 sustainedCount = 3, sustainedReset = 1700000064000\<rparr>, 1700000004500)
   \<and> map_of (rateLimitCache shared_state) ''rate-limit-ip:203.0.113.7''
       = Some (\<lparr>burstCount = 0, burstReset = 1700000004000,
                 sustainedCount = 3, sustainedReset = 1700000064000\<rparr>, 1700000004500)"
proof -
  have other: "''rate-limit-ip:203.0.113.7'' \<noteq> ''rate-limit:'' @ ''shop''" by simp
  from rateLimit_frame[OF shared_admitted other]
  show ?thesis
    unfolding shared_admitted by (simp add: shared_state_def)
qed

section \<open>Properties of the insight generation\<close>

lemma ball_push_if: "(\<forall>s\<in>set (push_if c x). P s) \<longleftrightarrow> (c \<longrightarrow> P x)"
  by (cases c) (simp_all add: push_if_def)

lemma scored_insights_static:
  "\<forall>s\<in>set (scored_insights now metrics).
      id' s \<in> set insight_kinds \<and> score s = static_score (id' s)"
proof -
  have last: "\<forall>s\<in>set (case lastMLUpdate metrics of None \<Rightarrow> [] | Some updated \<Rightarrow> push_if (c updated) (x updated)).
                id' s \<in> set insight_kinds \<and> score s = static_score (id' s)"
    if "\<And>u. id' (x u) \<in> set insight_kinds \<and> score (x u) = static_score (id' (x u))"
    for c and x :: "int \<Rightarrow> ScoredInsight"
    using that by (cases "lastMLUpdate metrics") (simp_all add: ball_push_if)
  show ?thesis
    unfolding scored_insights_def Let_def set_append ball_Un
    by (intro conjI last; simp add: ball_push_if static_score_def insight_kinds_def)
qed

lemma truncate_id: "id' (InsightCardProps.truncate s) = id' s"
  by (simp add: InsightCardProps.truncate_def)

lemma sorted_desc_take_sort:
  "sorted_wrt (\<lambda>a b. f a \<ge> f b) (take n (sort_key (\<lambda>a. - f a) xs))" for f :: "'a \<Rightarrow> real"
proof -
  have "sorted (map (\<lambda>a. - f a) (sort_key (\<lambda>a. - f a) xs))" by (rule sorted_sort_key)
  then have "sorted_wrt (\<lambda>a b. f a \<ge> f b) (sort_key (\<lambda>a. - f a) xs)"
    by (simp add: sorted_map)
  then show ?thesis by (rule sorted_wrt_take)
qed

lemma top_four_subset:
  "set (take 4 (sort_key (\<lambda>a. - score a) (scored_insights now metrics)))
     \<subseteq> set (scored_insights now metrics)"
  using set_take_subset[of 4 "sort_key (\<lambda>a. - score a) (scored_insights now metrics)"] by simp

lemma top_four_static:
  assumes "s \<in> set (take 4 (sort_key (\<lambda>a. - score a) (scored_insights now metrics)))"
  shows "score s = static_score (id' s)"
proof -
  from assms top_four_subset[of now metrics] have "s \<in> set (scored_insights now metrics)"
    by (rule set_mp[rotated])
  with scored_insights_static[of now metrics] show ?thesis by blast
qed

lemma top_sorted_static:
  "sorted_wrt (\<lambda>a b. static_score (id' a) \<ge> static_score (id' b))
     (take 4 (sort_key (\<lambda>a. - score a) (scored_insights now metrics)))"
proof -
  let ?top = "take 4 (sort_key (\<lambda>a. - score a) (scored_insights now metrics))"
  have by_score: "sorted_wrt (\<lambda>a b. score a \<ge> score b) ?top"
    by (rule sorted_desc_take_sort[of score 4 "scored_insights now metrics"])
  show ?thesis
  proof (rule sorted_wrt_mono_rel[of ?top "\<lambda>a b. score a \<ge> score b"
                "\<lambda>a b. static_score (id' a) \<ge> static_score (id' b)", OF _ by_score])
    fix x y assume "x \<in> set ?top" "y \<in> set ?top" "score y \<le> score x"
    then show "static_score (id' y) \<le> static_score (id' x)"
      using top_four_static[of x now metrics] top_four_static[of y now metrics] by simp
  qed
qed

lemma map_id_push_if: "map id' (push_if c x) = push_if c (id' x)"
  by (simp add: push_if_def)

lemma filter_Cons_push_if: "filter P (x # xs) = push_if (P x) x @ filter P xs"
  by (simp add: push_if_def)

lemma insight_applies_kinds:
  "insight_applies now metrics ''no-visibility''
     \<longleftrightarrow> \<not> recommendationsVisible metrics \<and> appInstalledDays metrics > 3"
  "insight_applies now metrics ''cart-disabled'' \<longleftrightarrow> \<not> cartEnabled metrics \<and> totalOrders metrics > 10"
  "insight_applies now metrics ''no-bundles''
     \<longleftrightarrow> activeBundleCount metrics = 0 \<and> appInstalledDays metrics > 7"
  "insight_applies now metrics ''no-clicks'' \<longleftrightarrow> recImpressions metrics > 50 \<and> recClicks metrics = 0"
  "insight_applies now metrics ''low-ctr'' \<longleftrightarrow> recCTR metrics < 2 \<and> recImpressions metrics > 100"
  "insight_applies now metrics ''low-conversion''
     \<longleftrightarrow> recCTR metrics > 3 \<and> conversionRate metrics < 1 \<and> recClicks metrics > 20"
  "insight_applies now metrics ''shipping-low''
     \<longleftrightarrow> freeShippingEnabled metrics \<and> freeShippingThreshold metrics > 0
        \<and> (let reachingRate =
                 (if totalOrders metrics > 0
                  then (ordersReachingFreeShipping metrics / totalOrders metrics) * 100 else 0)
           in reachingRate < 15 \<and> reachingRate > 0)"
  "insight_applies now metrics ''ai-disabled''
     \<longleftrightarrow> \<not> aiRecommendationsEnabled metrics \<and> totalOrders metrics > 20 \<and> activeBundleCount metrics > 0"
  "insight_applies now metrics ''first-sale''
     \<longleftrightarrow> attributedOrders metrics = 1 \<and> appInstalledDays metrics < 30"
  "insight_applies now metrics ''strong-roi'' \<longleftrightarrow> roi metrics > 10 \<and> attributedRevenue metrics > 100"
  "insight_applies now metrics ''high-ctr'' \<longleftrightarrow> recCTR metrics > 5 \<and> recImpressions metrics > 50"
  "insight_applies now metrics ''high-conversion''
     \<longleftrightarrow> conversionRate metrics > 5 \<and> recClicks metrics > 20"
  "insight_applies now metrics ''getting-started''
     \<longleftrightarrow> appInstalledDays metrics < 7 \<and> recImpressions metrics < 10"
  "insight_applies now metrics ''ml-improving''
     \<longleftrightarrow> (case lastMLUpdate metrics of
           None \<Rightarrow> False
         | Some updated \<Rightarrow>
             mlPerformanceChange metrics > 10 \<and> (now - updated) div (1000 * 60 * 60 * 24) < 7)"
  unfolding insight_applies_def by simp_all

text \<open>The ids of the cards that the conditionals push are the kinds whose conditions
  hold, in the order of the conditionals.\<close>

lemma scored_insights_ids:
  "map id' (scored_insights now metrics) = filter (insight_applies now metrics) insight_kinds"
proof (cases "lastMLUpdate metrics")
  case None
  have last: "push_if (insight_applies now metrics ''ml-improving'') ''ml-improving'' = []"
    using None by (simp add: insight_applies_kinds push_if_def)
  show ?thesis
    unfolding scored_insights_def insight_kinds_def filter_Cons_push_if filter.simps(1) last
    by (simp add: None map_id_push_if insight_applies_kinds(1-13) Let_def)
next
  case (Some updated)
  have last: "push_if (insight_applies now metrics ''ml-improving'') ''ml-improving''
      = push_if (mlPerformanceChange metrics > 10 \<and> (now - updated) div (1000 * 60 * 60 * 24) < 7)
          ''ml-improving''"
    using Some by (simp add: insight_applies_kinds)
  show ?thesis
    unfolding scored_insights_def insight_kinds_def filter_Cons_push_if filter.simps(1) last
    by (simp add: Some map_id_push_if insight_applies_kinds(1-13) Let_def)
qed

text \<open>Sorting by the score is sorting by the static score of the id, and it commutes
  with reading the ids.\<close>

lemma insort_key_cong_on:
  "f x = g x \<Longrightarrow> (\<forall>y\<in>set ys. f y = g y) \<Longrightarrow> insort_key f x ys = insort_key g x ys"
  by (induction ys) simp_all

lemma sort_key_cong_on:
  "(\<forall>x\<in>set xs. f x = g x) \<Longrightarrow> sort_key f xs = sort_key g xs"
proof (induction xs)
  case Nil
  then show ?case by simp
next
  case (Cons x xs)
  then have IH: "sort_key f xs = sort_key g xs" by simp
  have "insort_key f x (sort_key g xs) = insort_key g x (sort_key g xs)"
    using Cons.prems by (intro insort_key_cong_on) simp_all
  with IH show ?case by simp
qed

lemma map_insort_key:
  "map h (insort_key (\<lambda>x. g (h x)) x ys) = insort_key g (h x) (map h ys)"
  by (induction ys) simp_all

lemma map_sort_key:
  "map h (sort_key (\<lambda>x. g (h x)) xs) = sort_key g (map h xs)"
  by (induction xs) (simp_all add: map_insort_key)

lemma sort_by_static_score:
  "sort_key (\<lambda>a. - score a) (scored_insights now metrics)
     = sort_key (\<lambda>a. - static_score (id' a)) (scored_insights now metrics)"
  using scored_insights_static[of now metrics] by (intro sort_key_cong_on) simp

lemma generateInsights_ids:
  "map id' (generateInsights now metrics)
     = take 4 (sort_key (\<lambda>k. - static_score k) (filter (insight_applies now metrics) insight_kinds))"
proof -
  have "map id' (generateInsights now metrics)
      = take 4 (map id' (sort_key (\<lambda>a. - static_score (id' a)) (scored_insights now metrics)))"
    unfolding generateInsights_def sort_by_static_score
    by (simp add: truncate_id take_map)
  also have "\<dots> = take 4 (sort_key (\<lambda>k. - static_score k) (map id' (scored_insights now metrics)))"
    by (simp only: map_sort_key[of id' "\<lambda>k. - static_score k"])
  finally show ?thesis by (simp only: scored_insights_ids)
qed

text \<open>Each of the fourteen conditions holds of some shop.\<close>

lemma neglected_applies:
  "insight_applies now neglected_shop ''no-visibility''"
  "insight_applies now neglected_shop ''cart-disabled''"
  "insight_applies now neglected_shop ''no-bundles''"
  "insight_applies now neglected_shop ''shipping-low''"
  "insight_applies now neglected_shop ''strong-roi''"
  "insight_applies now neglected_shop ''high-ctr''"
  "insight_applies now (neglected_shop\<lparr>lastMLUpdate := Some now\<rparr>) ''ml-improving''"
  by (simp_all add: insight_applies_kinds neglected_shop_def)

lemma unclicked_applies:
  "insight_applies now unclicked_shop ''no-clicks''"
  "insight_applies now unclicked_shop ''low-ctr''"
  "insight_applies now unclicked_shop ''ai-disabled''"
  "insight_applies now unclicked_shop ''first-sale''"
  by (simp_all add: insight_applies_kinds unclicked_shop_def)

lemma overpriced_applies:
  "insight_applies now overpriced_shop ''low-conversion''"
  by (simp add: insight_applies_kinds overpriced_shop_def)

lemma promising_applies:
  "insight_applies now promising_shop ''high-conversion''"
  "insight_applies now promising_shop ''getting-started''"
  by (simp_all add: insight_applies_kinds promising_shop_def)

lemma every_kind_occurs:
  "\<forall>k\<in>set insight_kinds. \<exists>shop. k \<in> set (map id' (scored_insights now shop))"
proof -
  have "\<forall>k\<in>set insight_kinds. \<exists>shop. insight_applies now shop k"
    unfolding insight_kinds_def list.set ball_simps
    by (intro conjI TrueI; rule exI;
        rule neglected_applies unclicked_applies overpriced_applies promising_applies)
  then show ?thesis
    unfolding scored_insights_ids by simp
qed

lemma neglected_scored:
  "map (\<lambda>s. (id' s, score s)) (scored_insights 1700000000000 neglected_shop) =
     [(''no-visibility'', 100), (''cart-disabled'', 95), (''no-bundles'', 97),
      (''shipping-low'', 78), (''strong-roi'', 65), (''high-ctr'', 68), (''ml-improving'', 55)]"
  by (simp add: scored_insights_def neglected_shop_def push_if_def)

lemma neglected_ids:
  "map id' (generateInsights 1700000000000 neglected_shop)
     = [''no-visibility'', ''no-bundles'', ''cart-disabled'', ''shipping-low'']"
  by (simp add: generateInsights_def scored_insights_def neglected_shop_def push_if_def
      InsightCardProps.truncate_def)

lemma neglected_kinds:
  "filter (insight_applies 1700000000000 neglected_shop) insight_kinds
     = [''no-visibility'', ''cart-disabled'', ''no-bundles'', ''shipping-low'', ''strong-roi'',
        ''high-ctr'', ''ml-improving'']"
  by (simp add: insight_kinds_def insight_applies_kinds neglected_shop_def)

text \<open>
  Claim C6: the insights are conditional pushes of cards of fourteen kinds, sorted by a
  static score.  For every metrics input, the cards pushed are those of the kinds whose
  conditions hold, in the order of the fourteen conditionals; each card has the
  constant score that its kind (its id) alone determines, \<open>static_score\<close>; the cards
  returned are the first four of the pushed cards when these are sorted, stably, by
  descending static score, so their kinds are the first four of the kinds whose
  conditions hold, sorted so; and the returned list is in non-increasing order of that
  score.  The kinds are fourteen, all different, and each of them is pushed for some
  metrics.
\<close>

theorem insights_sorted_by_static_score:
  "map id' (scored_insights now metrics) = filter (insight_applies now metrics) insight_kinds
   \<and> (\<forall>s\<in>set (scored_insights now metrics). score s = static_score (id' s))
   \<and> generateInsights now metrics
       = map InsightCardProps.truncate
           (take 4 (sort_key (\<lambda>s. - static_score (id' s)) (scored_insights now metrics)))
   \<and> map id' (generateInsights now metrics)
       = take 4 (sort_key (\<lambda>k. - static_score k) (filter (insight_applies now metrics) insight_kinds))
   \<and> sorted_wrt (\<lambda>a b. static_score (id' a) \<ge> static_score (id' b)) (generateInsights now metrics)
   \<and> length insight_kinds = 14 \<and> distinct insight_kinds
   \<and> (\<forall>k\<in>set insight_kinds. \<exists>shop. k \<in> set (map id' (scored_insights now shop)))"
proof (intro conjI)
  show "map id' (scored_insights now metrics) = filter (insight_applies now metrics) insight_kinds"
    by (rule scored_insights_ids)
  show "\<forall>s\<in>set (scored_insights now metrics). score s = static_score (id' s)"
    using scored_insights_static[of now metrics] by blast
  show "generateInsights now metrics
       = map InsightCardProps.truncate
           (take 4 (sort_key (\<lambda>s. - static_score (id' s)) (scored_insights now metrics)))"
    unfolding generateInsights_def sort_by_static_score ..
  show "map id' (generateInsights now metrics)
       = take 4 (sort_key (\<lambda>k. - static_score k) (filter (insight_applies now metrics) insight_kinds))"
    by (rule generateInsights_ids)
  have "sorted_wrt (\<lambda>a b. static_score (id' (InsightCardProps.truncate a))
                          \<ge> static_score (id' (InsightCardProps.truncate b)))
          (take 4 (sort_key (\<lambda>a. - score a) (scored_insights now metrics)))"
    unfolding truncate_id by (rule top_sorted_static)
  then show "sorted_wrt (\<lambda>a b. static_score (id' a) \<ge> static_score (id' b)) (generateInsights now metrics)"
    unfolding generateInsights_def sorted_wrt_map .
  show "length insight_kinds = 14"
    by (simp add: insight_kinds_def)
  show "distinct insight_kinds"
    by (simp add: insight_kinds_def)
  show "\<forall>k\<in>set insight_kinds. \<exists>shop. k \<in> set (map id' (scored_insights now shop))"
    by (rule every_kind_occurs)
qed

text \<open>The theorem at the neglected shop: seven conditions hold; of the seven cards
  pushed, the four with the scores 100, 97, 95 and 78 are returned, in this order.\<close>

theorem insights_sorted_by_static_score_witness:
  "map id' (scored_insights 1700000000000 neglected_shop)
     = [''no-visibility'', ''cart-disabled'', ''no-bundles'', ''shipping-low'', ''strong-roi'',
        ''high-ctr'', ''ml-improving'']
   \<and> map id' (generateInsights 1700000000000 neglected_shop)
     = [''no-visibility'', ''no-bundles'', ''cart-disabled'', ''shipping-low'']
   \<and> map (\<lambda>c. static_score (id' c)) (generateInsights 1700000000000 neglected_shop) = [100, 97, 95, 78]"
proof -
  have "map (\<lambda>c. static_score (id' c)) (generateInsights 1700000000000 neglected_shop)
          = map static_score (map id' (generateInsights 1700000000000 neglected_shop))"
    by simp
  also have "\<dots> = [100, 97, 95, 78]"
    unfolding neglected_ids by (simp add: static_score_def)
  finally show ?thesis
    using insights_sorted_by_static_score[of 1700000000000 neglected_shop] neglected_ids
    unfolding neglected_kinds by simp
qed

text \<open>
  Claim C8: \<^verbatim>\<open>generateInsights\<close> returns at most four cards (four, or all of them when
  fewer were pushed), and each returned card is a pushed card without its score: the
  record of the \<^verbatim>\<open>InsightCardProps\<close> fields alone.
\<close>

theorem insights_at_most_four:
  "length (generateInsights now metrics) = min 4 (length (scored_insights now metrics))
   \<and> length (generateInsights now metrics) \<le> 4
   \<and> (\<forall>c\<in>set (generateInsights now metrics).
         \<exists>s\<in>set (scored_insights now metrics). c = InsightCardProps.truncate s)"
proof -
  let ?top = "take 4 (sort_key (\<lambda>a. - score a) (scored_insights now metrics))"
  have len: "length (generateInsights now metrics) = min 4 (length (scored_insights now metrics))"
    by (simp add: generateInsights_def min.commute)
  have "\<exists>s\<in>set (scored_insights now metrics). c = InsightCardProps.truncate s"
    if "c \<in> set (generateInsights now metrics)" for c
  proof -
    from that obtain s where s: "s \<in> set ?top" "c = InsightCardProps.truncate s"
      unfolding generateInsights_def set_map by (elim imageE)
    from s(1) top_four_subset[of now metrics] have "s \<in> set (scored_insights now metrics)"
      by (rule set_mp[rotated])
    with s(2) show ?thesis by (rule bexI)
  qed
  with len show ?thesis by simp
qed

text \<open>The theorem at the neglected shop: seven cards pushed, four returned.\<close>

theorem insights_at_most_four_witness:
  "length (scored_insights 1700000000000 neglected_shop) = 7
   \<and> length (generateInsights 1700000000000 neglected_shop) = 4"
proof -
  have "length (map (\<lambda>s. (id' s, score s)) (scored_insights 1700000000000 neglected_shop)) = 7"
    unfolding neglected_scored by simp
  then have "length (scored_insights 1700000000000 neglected_shop) = 7" by simp
  then show ?thesis
    using insights_at_most_four[of 1700000000000 neglected_shop] by simp
qed

section \<open>Properties of the money formatting\<close>

text \<open>
  Claim C10 says that \<^verbatim>\<open>formatMoney\<close> returns a string for every amount and never throws.
  It throws when the currency code is not well-formed, whatever the amount: the
  constructor of the formatter refuses the code \<^verbatim>\<open>XX\<close>, so \<^verbatim>\<open>formatMoney(12.5, 'XX')\<close> and
  \<^verbatim>\<open>formatMoney(NaN, 'XX')\<close> throw a \<^verbatim>\<open>RangeError\<close>.
\<close>

theorem formatMoney_throws_on_bad_currency:
  "fst (formatMoney tagged_format parse_nothing False (OfNumber (Finite 12.5)) ''XX'') = Inl RangeError
   \<and> fst (formatMoney tagged_format parse_nothing False (OfNumber NaN) ''XX'') = Inl RangeError"
  by (simp add: formatMoney_def numberFormat_def isWellFormedCurrencyCode_def)

text \<open>
  Claim C10, amended: \<^verbatim>\<open>formatMoney\<close> is total on its amount for a well-formed currency
  code, and for no other.  If the currency code is three ASCII letters, it returns a
  string for every amount, a number or a string, and throws nothing: the en-US currency
  formatting of the amount, or of 0 when the amount is \<^verbatim>\<open>NaN\<close> or a string that
  \<^verbatim>\<open>parseFloat\<close> reads as \<^verbatim>\<open>NaN\<close>.  For any other currency code it throws a \<^verbatim>\<open>RangeError\<close>
  for every amount, \<^verbatim>\<open>NaN\<close> included.
\<close>

theorem formatMoney_total_iff_currency_well_formed:
  "fst (formatMoney format parseFloat debugMode amount currencyCode)
     = (if isWellFormedCurrencyCode currencyCode
        then Inr (format currencyCode
                    (case amount of
                       OfNumber NaN \<Rightarrow> Finite 0
                     | OfNumber n \<Rightarrow> n
                     | OfString s \<Rightarrow> (if parseFloat s = NaN then Finite 0 else parseFloat s)))
        else Inl RangeError)"
  by (auto simp: formatMoney_def numberFormat_def Let_def split: amount_value.splits number.splits)

text \<open>The theorem with the stand-in platform: in US dollars at \<^verbatim>\<open>NaN\<close>, at 12.5, at the
  negative zero and at the string \<^verbatim>\<open>abc\<close>, and at 12.5 with the currency code \<^verbatim>\<open>US\<close>.\<close>

theorem formatMoney_total_iff_currency_well_formed_witness:
  "fst (formatMoney tagged_format parse_nothing False (OfNumber NaN) ''USD'') = Inr ''USD 0.00''
   \<and> fst (formatMoney tagged_format parse_nothing False (OfNumber (Finite 12.5)) ''USD'') = Inr ''USD #.##''
   \<and> fst (formatMoney tagged_format parse_nothing False (OfNumber NegZero) ''USD'') = Inr ''USD -0.00''
   \<and> fst (formatMoney tagged_format parse_nothing True (OfString ''abc'') ''USD'') = Inr ''USD 0.00''
   \<and> fst (formatMoney tagged_format parse_nothing False (OfNumber (Finite 12.5)) ''US'') = Inl RangeError"
  using formatMoney_total_iff_currency_well_formed[of tagged_format parse_nothing False "OfNumber NaN" "''USD''"]
        formatMoney_total_iff_currency_well_formed[of tagged_format parse_nothing False "OfNumber (Finite 12.5)" "''USD''"]
        formatMoney_total_iff_currency_well_formed[of tagged_format parse_nothing False "OfNumber NegZero" "''USD''"]
        formatMoney_total_iff_currency_well_formed[of tagged_format parse_nothing True "OfString ''abc''" "''USD''"]
        formatMoney_total_iff_currency_well_formed[of tagged_format parse_nothing False "OfNumber (Finite 12.5)" "''US''"]
  by (simp add: isWellFormedCurrencyCode_def is_ascii_letter_def tagged_format_def parse_nothing_def)

end
